theory Spec2Isabelle
  imports Complex_Main "HOL-Library.Multiset"
begin

section \<open>Data model\<close>

text \<open>
  Times are Python floats in the source; they are modelled as exact rationals, so the
  theorems below are about the planning and merging arithmetic without rounding.
  Strings are lists of characters with code points below 256.
\<close>

datatype error = IndexError | ValueError | CalledProcessError | FileNotFoundError | ModelError

text \<open>A silence period is the dict \<open>{'start': s}\<close>, to which \<open>'end'\<close> is added later.\<close>

record silence =
  sil_start :: rat
  sil_end :: "rat option"

text \<open>A chunk descriptor: the dict with keys path, start, duration, index.\<close>

record chunk =
  c_path :: string
  c_start :: rat
  c_duration :: rat
  c_index :: nat

section \<open>Strings\<close>

text \<open>
  Python's \<open>str.isspace\<close>, \<open>str.strip()\<close> and \<open>sep.join(parts)\<close>, for
  characters with code points below 256.
\<close>

definition isspace :: "char \<Rightarrow> bool" where
  "isspace c \<longleftrightarrow> of_char c \<in> set [9, 10, 11, 12, 13, 28, 29, 30, 31, 32, 133, 160 :: nat]"

definition strip :: "string \<Rightarrow> string" where
  "strip s = rev (dropWhile isspace (rev (dropWhile isspace s)))"

fun join :: "string \<Rightarrow> string list \<Rightarrow> string" where
  "join sep [] = []"
| "join sep [x] = x"
| "join sep (x # y # ys) = x @ sep @ join sep (y # ys)"

section \<open>Silence detection output: the parser of \<open>split_audio_with_silence_detection\<close>\<close>

text \<open>
  \<open>cut_at sep s\<close> cuts \<open>s\<close> at the first occurrence of \<open>sep\<close>;
  \<open>contains needle line\<close> is \<open>needle in line\<close>; \<open>split_second sep line\<close> is
  \<open>line.split(sep)[1]\<close>; \<open>first_token s\<close> is \<open>s.split()[0]\<close>. Both
  indexings raise IndexError out of range. \<open>py_float\<close> stands for
  \<open>float\<close>, with \<open>None\<close> where it raises ValueError.
\<close>

fun cut_at :: "string \<Rightarrow> string \<Rightarrow> (string \<times> string) option" where
  "cut_at sep [] = (if sep = [] then Some ([], []) else None)"
| "cut_at sep (c # cs) =
     (if take (length sep) (c # cs) = sep then Some ([], drop (length sep) (c # cs))
      else (case cut_at sep cs of None \<Rightarrow> None
            | Some (before, after) \<Rightarrow> Some (c # before, after)))"

definition contains :: "string \<Rightarrow> string \<Rightarrow> bool" where
  "contains needle line \<longleftrightarrow> cut_at needle line \<noteq> None"

definition split_second :: "string \<Rightarrow> string \<Rightarrow> error + string" where
  "split_second sep line =
     (case cut_at sep line of
        None \<Rightarrow> Inl IndexError
      | Some (before, rest) \<Rightarrow>
          (case cut_at sep rest of None \<Rightarrow> Inr rest | Some (piece, after) \<Rightarrow> Inr piece))"

definition first_token :: "string \<Rightarrow> error + string" where
  "first_token s =
     (let token = takeWhile (\<lambda>c. \<not> isspace c) (dropWhile isspace s)
      in if token = [] then Inl IndexError else Inr token)"

definition number_after :: "(string \<Rightarrow> rat option) \<Rightarrow> string \<Rightarrow> string \<Rightarrow> error + rat" where
  "number_after py_float sep line =
     (case split_second sep line of
        Inl e \<Rightarrow> Inl e
      | Inr piece \<Rightarrow>
          (case first_token piece of
             Inl e \<Rightarrow> Inl e
           | Inr token \<Rightarrow> (case py_float token of None \<Rightarrow> Inl ValueError | Some v \<Rightarrow> Inr v)))"

text \<open>The body of \<open>for line in result.stderr.split('\n')\<close>, and the loop.\<close>

definition parse_line :: "(string \<Rightarrow> rat option) \<Rightarrow> silence list \<Rightarrow> string \<Rightarrow> error + silence list" where
  "parse_line py_float silence_periods line =
     (if contains ''silence_start:'' line then
        (case number_after py_float ''silence_start: '' line of
           Inl e \<Rightarrow> Inl e
         | Inr start \<Rightarrow> Inr (silence_periods @ [\<lparr>sil_start = start, sil_end = None\<rparr>]))
      else if contains ''silence_end:'' line \<and> silence_periods \<noteq> []
              \<and> sil_end (last silence_periods) = None then
        (case number_after py_float ''silence_end: '' line of
           Inl e \<Rightarrow> Inl e
         | Inr end_time \<Rightarrow>
             Inr (butlast silence_periods @ [(last silence_periods)\<lparr>sil_end := Some end_time\<rparr>]))
      else Inr silence_periods)"

fun parse_silence :: "(string \<Rightarrow> rat option) \<Rightarrow> silence list \<Rightarrow> string list \<Rightarrow> error + silence list" where
  "parse_silence py_float silence_periods [] = Inr silence_periods"
| "parse_silence py_float silence_periods (line # rest) =
     (case parse_line py_float silence_periods line of
        Inl e \<Rightarrow> Inl e
      | Inr silence_periods' \<Rightarrow> parse_silence py_float silence_periods' rest)"

section \<open>Chunk planner: \<open>split_audio_with_silence_detection\<close>\<close>

text \<open>
  The inner \<open>for silence in silence_periods\<close> loop. Its state is the pair
  \<open>(best_split, min_distance)\<close>; \<open>None\<close> stands for \<open>float('inf')\<close>.
\<close>

fun nearest_silence :: "rat \<Rightarrow> rat \<Rightarrow> silence list \<Rightarrow> rat \<times> rat option \<Rightarrow> rat \<times> rat option" where
  "nearest_silence current_start target_end [] st = st"
| "nearest_silence current_start target_end (silence # rest) (best_split, min_distance) =
     (case sil_end silence of
        None \<Rightarrow> nearest_silence current_start target_end rest (best_split, min_distance)
      | Some e \<Rightarrow>
          if current_start < e \<and> e \<le> target_end + 5 then
            (let distance = \<bar>e - target_end\<bar> in
             if (case min_distance of None \<Rightarrow> True | Some m \<Rightarrow> distance < m)
             then nearest_silence current_start target_end rest (e, Some distance)
             else nearest_silence current_start target_end rest (best_split, min_distance))
          else nearest_silence current_start target_end rest (best_split, min_distance))"

definition best_split :: "rat \<Rightarrow> rat \<Rightarrow> silence list \<Rightarrow> rat" where
  "best_split current_start target_end silence_periods =
     fst (nearest_silence current_start target_end silence_periods (target_end, None))"

text \<open>The format \<open>{chunk_num:03d}\<close>: decimal digits, zero-padded to width three.\<close>

fun digits :: "nat \<Rightarrow> string" where
  "digits n = (if n < 10 then [char_of (48 + n)] else digits (n div 10) @ [char_of (48 + n mod 10)])"

declare digits.simps [simp del]

definition fmt03d :: "nat \<Rightarrow> string" where
  "fmt03d n = replicate (3 - length (digits n)) CHR ''0'' @ digits n"

definition chunk_file :: "string \<Rightarrow> nat \<Rightarrow> string" where
  "chunk_file hearing_id chunk_num = hearing_id @ ''_chunk_'' @ fmt03d chunk_num @ ''.wav''"

text \<open>
  The \<open>while current_start < duration\<close> loop. The codec tool is outside the program:
  \<open>cut_ok start duration path\<close> says whether the cut command exits with status zero
  (\<open>check=True\<close> raises otherwise). A run of the loop that never ends is \<open>None\<close>.
\<close>

partial_function (option) plan_loop ::
  "rat \<Rightarrow> rat \<Rightarrow> silence list \<Rightarrow> (rat \<Rightarrow> rat \<Rightarrow> string \<Rightarrow> bool) \<Rightarrow> string
   \<Rightarrow> rat \<Rightarrow> nat \<Rightarrow> chunk list \<Rightarrow> (error + chunk list) option" where
  "plan_loop duration chunk_len silence_periods cut_ok hearing_id current_start chunk_num chunks =
     (if current_start < duration then
        (let target_end = min (current_start + chunk_len) duration;
             best = best_split current_start target_end silence_periods;
             chunk_path = chunk_file hearing_id chunk_num;
             chunk_dur = best - current_start
         in if chunk_dur > 1 / 2 then
              (if cut_ok current_start chunk_dur chunk_path then
                 plan_loop duration chunk_len silence_periods cut_ok hearing_id best (Suc chunk_num)
                   (chunks @ [\<lparr>c_path = chunk_path, c_start = current_start,
                                c_duration = chunk_dur, c_index = chunk_num\<rparr>])
               else Some (Inl CalledProcessError))
            else plan_loop duration chunk_len silence_periods cut_ok hearing_id best chunk_num chunks)
      else Some (Inr chunks))"

declare plan_loop.simps [code]

text \<open>
  The whole function, given the probed duration and the lines of the silence detector's
  diagnostic output.
\<close>

definition split_audio_with_silence_detection ::
  "(string \<Rightarrow> rat option) \<Rightarrow> (rat \<Rightarrow> rat \<Rightarrow> string \<Rightarrow> bool) \<Rightarrow> rat \<Rightarrow> rat \<Rightarrow> string list \<Rightarrow> string
     \<Rightarrow> (error + chunk list) option" where
  "split_audio_with_silence_detection py_float cut_ok chunk_len duration stderr_lines hearing_id =
     (case parse_silence py_float [] stderr_lines of
        Inl e \<Rightarrow> Some (Inl e)
      | Inr silence_periods \<Rightarrow>
          plan_loop duration chunk_len silence_periods cut_ok hearing_id 0 0 [])"

text \<open>A sample of diagnostic output, and \<open>float\<close> on the literals in it.\<close>

definition sample_float :: "string \<Rightarrow> rat option" where
  "sample_float token =
     (if token = ''28.5'' then Some (57 / 2) else if token = ''31'' then Some 31
      else if token = ''88.25'' then Some (353 / 4) else None)"

definition sample_stderr :: "string list" where
  "sample_stderr =
     [''Input #0, wav, from 7_full.wav:'',
      ''[silencedetect @ 0x55d] silence_start: 28.5'',
      ''[silencedetect @ 0x55d] silence_end: 31 | silence_duration: 2.5'',
      ''[silencedetect @ 0x55d] silence_start: 88.25'',
      ''size=N/A time=00:01:30.00 bitrate=N/A speed= 900x'']"

definition eligible :: "rat \<Rightarrow> rat \<Rightarrow> silence list \<Rightarrow> rat set" where
  "eligible s t ps = {e. \<exists>p \<in> set ps. sil_end p = Some e \<and> s < e \<and> e \<le> t + 5}"

lemma eligible_Nil [simp]: "eligible s t [] = {}"
  by (simp add: eligible_def)

lemma eligible_Cons:
  "eligible s t (p # ps) =
     (case sil_end p of None \<Rightarrow> eligible s t ps
      | Some e \<Rightarrow> if s < e \<and> e \<le> t + 5 then insert e (eligible s t ps) else eligible s t ps)"
  by (auto simp: eligible_def split: option.splits)

lemma nearest_silence_inv:
  assumes "nearest_silence s t ps (b, md) = (b', md')"
      and "\<forall>m. md = Some m \<longrightarrow> m = \<bar>b - t\<bar>"
  shows "(md' = None \<longrightarrow> md = None \<and> b' = b \<and> eligible s t ps = {}) \<and>
         (\<forall>m'. md' = Some m' \<longrightarrow> m' = \<bar>b' - t\<bar> \<and>
               (b' \<in> eligible s t ps \<or> (md = Some m' \<and> b' = b)) \<and>
               (\<forall>e \<in> eligible s t ps. m' \<le> \<bar>e - t\<bar>) \<and> (\<forall>m. md = Some m \<longrightarrow> m' \<le> m))"
  using assms
proof (induction ps arbitrary: b md)
  case Nil
  then show ?case by auto
next
  case (Cons p ps)
  show ?case
  proof (cases "sil_end p")
    case None
    with Cons.prems have "nearest_silence s t ps (b, md) = (b', md')" by simp
    from Cons.IH [OF this Cons.prems(2)] None show ?thesis
      by (simp add: eligible_Cons)
  next
    case (Some e)
    show ?thesis
    proof (cases "s < e \<and> e \<le> t + 5")
      case False
      with Some Cons.prems have "nearest_silence s t ps (b, md) = (b', md')" by auto
      from Cons.IH [OF this Cons.prems(2)] Some False show ?thesis
        by (auto simp: eligible_Cons)
    next
      case True
      show ?thesis
      proof (cases "case md of None \<Rightarrow> True | Some m \<Rightarrow> \<bar>e - t\<bar> < m")
        case better: True
        with Some True Cons.prems
        have run: "nearest_silence s t ps (e, Some \<bar>e - t\<bar>) = (b', md')" by (simp add: Let_def)
        have "\<forall>m. Some \<bar>e - t\<bar> = Some m \<longrightarrow> m = \<bar>e - t\<bar>" by simp
        from Cons.IH [OF run this] Some True better show ?thesis
          by (auto simp: eligible_Cons split: option.splits)
      next
        case worse: False
        with Some True Cons.prems
        have run: "nearest_silence s t ps (b, md) = (b', md')" by (simp add: Let_def)
        from Cons.IH [OF run Cons.prems(2)] Some True worse show ?thesis
          by (auto simp: eligible_Cons split: option.splits)
      qed
    qed
  qed
qed

definition silence_ends :: "silence list \<Rightarrow> rat list" where
  "silence_ends ps = List.map_filter sil_end ps"

definition eligible_ends :: "rat \<Rightarrow> rat \<Rightarrow> silence list \<Rightarrow> rat list" where
  "eligible_ends s t ps = filter (\<lambda>e. s < e \<and> e \<le> t + 5) (silence_ends ps)"

lemma set_eligible_ends: "set (eligible_ends s t ps) = eligible s t ps"
  by (force simp: eligible_ends_def silence_ends_def eligible_def List.map_filter_def)

lemma best_split_cases:
  "(eligible s t ps = {} \<and> best_split s t ps = t) \<or>
   (best_split s t ps \<in> eligible s t ps \<and> (\<forall>e \<in> eligible s t ps. \<bar>best_split s t ps - t\<bar> \<le> \<bar>e - t\<bar>))"
proof -
  obtain b' md' where run: "nearest_silence s t ps (t, None) = (b', md')"
    by (cases "nearest_silence s t ps (t, None)")
  have b: "best_split s t ps = b'" by (simp add: best_split_def run)
  from nearest_silence_inv [OF run] show ?thesis
    unfolding b by (cases md') auto
qed

lemma best_split_advances:
  assumes "s < t"
  shows "s < best_split s t ps"
  using best_split_cases [of s t ps] assms by (auto simp: eligible_def)

definition plan_measure :: "rat \<Rightarrow> rat \<Rightarrow> silence list \<Rightarrow> rat \<Rightarrow> nat" where
  "plan_measure D L ps s = length (filter (\<lambda>e. s < e) (silence_ends ps)) + nat \<lceil>(D - s) / L\<rceil>"

lemma length_filter_mono:
  "(\<And>x. x \<in> set xs \<Longrightarrow> P x \<Longrightarrow> Q x) \<Longrightarrow> length (filter P xs) \<le> length (filter Q xs)"
  by (induction xs) auto

lemma length_filter_strict:
  "(\<And>x. x \<in> set xs \<Longrightarrow> P x \<Longrightarrow> Q x) \<Longrightarrow> y \<in> set xs \<Longrightarrow> Q y \<Longrightarrow> \<not> P y
     \<Longrightarrow> length (filter P xs) < length (filter Q xs)"
proof (induction xs)
  case Nil
  then show ?case by simp
next
  case (Cons x xs)
  have le: "length (filter P xs) \<le> length (filter Q xs)"
    using Cons.prems(1) by (intro length_filter_mono) auto
  show ?case
  proof (cases "y = x")
    case True
    with Cons.prems le show ?thesis by auto
  next
    case False
    with Cons.prems have "y \<in> set xs" by simp
    from Cons.IH [OF _ this Cons.prems(3,4)] Cons.prems(1)
    have "length (filter P xs) < length (filter Q xs)" by auto
    with Cons.prems(1) [of x] show ?thesis by auto
  qed
qed

lemma ceiling_part_mono:
  assumes "0 < (L::rat)" "s \<le> b"
  shows "nat \<lceil>(D - b) / L\<rceil> \<le> nat \<lceil>(D - s) / L\<rceil>"
proof -
  have "(D - b) / L \<le> (D - s) / L" using assms by (simp add: divide_right_mono)
  then show ?thesis by (intro nat_mono ceiling_mono)
qed

lemma ceiling_part_strict:
  assumes "0 < (L::rat)" "s < D"
  shows "nat \<lceil>(D - min (s + L) D) / L\<rceil> < nat \<lceil>(D - s) / L\<rceil>"
proof -
  have pos: "0 < (D - s) / L" using assms by simp
  then have c1: "1 \<le> \<lceil>(D - s) / L\<rceil>" by (simp add: ceiling_le_iff[symmetric] less_ceiling_iff)
  show ?thesis
  proof (cases "s + L \<le> D")
    case True
    have "(D - (s + L)) / L = (D - s) / L - 1" using assms by (simp add: field_simps)
    then have "\<lceil>(D - (s + L)) / L\<rceil> = \<lceil>(D - s) / L\<rceil> - 1" by simp
    with True c1 show ?thesis by (simp add: min_def)
  next
    case False
    with c1 show ?thesis by (simp add: min_def)
  qed
qed

lemma plan_measure_decreases:
  assumes L: "0 < L" and s: "s < D"
  shows "plan_measure D L ps (best_split s (min (s + L) D) ps) < plan_measure D L ps s"
proof -
  let ?t = "min (s + L) D"
  let ?b = "best_split s ?t ps"
  have st: "s < ?t" using L s by simp
  have sb: "s < ?b" using st by (rule best_split_advances)
  have f_le: "length (filter (\<lambda>e. ?b < e) (silence_ends ps)) \<le> length (filter (\<lambda>e. s < e) (silence_ends ps))"
    using sb by (intro length_filter_mono) auto
  have c_le: "nat \<lceil>(D - ?b) / L\<rceil> \<le> nat \<lceil>(D - s) / L\<rceil>"
    using L sb by (intro ceiling_part_mono) auto
  from best_split_cases [of s ?t ps] show ?thesis
  proof
    assume "eligible s ?t ps = {} \<and> ?b = ?t"
    then have "nat \<lceil>(D - ?b) / L\<rceil> < nat \<lceil>(D - s) / L\<rceil>"
      using ceiling_part_strict [OF L s] by simp
    with f_le show ?thesis unfolding plan_measure_def by linarith
  next
    assume "?b \<in> eligible s ?t ps \<and> (\<forall>e \<in> eligible s ?t ps. \<bar>?b - ?t\<bar> \<le> \<bar>e - ?t\<bar>)"
    then have mem: "?b \<in> set (silence_ends ps)"
      by (auto simp: set_eligible_ends [symmetric] eligible_ends_def)
    have "length (filter (\<lambda>e. ?b < e) (silence_ends ps)) < length (filter (\<lambda>e. s < e) (silence_ends ps))"
      using sb by (intro length_filter_strict [OF _ mem]) auto
    with c_le show ?thesis unfolding plan_measure_def by linarith
  qed
qed

lemma plan_loop_rule:
  assumes L: "0 < L"
    and I0: "I s n acc"
    and emit: "\<And>s n acc. I s n acc \<Longrightarrow> s < D
        \<Longrightarrow> 1 / 2 < best_split s (min (s + L) D) ps - s
        \<Longrightarrow> cut_ok s (best_split s (min (s + L) D) ps - s) (chunk_file hid n)
        \<Longrightarrow> I (best_split s (min (s + L) D) ps) (Suc n)
              (acc @ [\<lparr>c_path = chunk_file hid n, c_start = s,
                        c_duration = best_split s (min (s + L) D) ps - s, c_index = n\<rparr>])"
    and skip: "\<And>s n acc. I s n acc \<Longrightarrow> s < D
        \<Longrightarrow> \<not> 1 / 2 < best_split s (min (s + L) D) ps - s
        \<Longrightarrow> I (best_split s (min (s + L) D) ps) n acc"
  shows "\<exists>r. plan_loop D L ps cut_ok hid s n acc = Some r \<and>
             (\<forall>cs. r = Inr cs \<longrightarrow> (\<exists>s' n'. I s' n' cs \<and> \<not> s' < D)) \<and>
             (\<forall>e. r = Inl e \<longrightarrow> e = CalledProcessError \<and> (\<exists>a d p. \<not> cut_ok a d p))"
  using I0
proof (induction "plan_measure D L ps s" arbitrary: s n acc rule: less_induct)
  case less
  show ?case
  proof (cases "s < D")
    case False
    then have "plan_loop D L ps cut_ok hid s n acc = Some (Inr acc)"
      by (subst plan_loop.simps) simp
    with less.prems False show ?thesis by auto
  next
    case True
    let ?b = "best_split s (min (s + L) D) ps"
    have dec: "plan_measure D L ps ?b < plan_measure D L ps s"
      using L True by (rule plan_measure_decreases)
    show ?thesis
    proof (cases "1 / 2 < ?b - s")
      case long: True
      show ?thesis
      proof (cases "cut_ok s (?b - s) (chunk_file hid n)")
        case ok: True
        let ?acc = "acc @ [\<lparr>c_path = chunk_file hid n, c_start = s, c_duration = ?b - s, c_index = n\<rparr>]"
        have eq: "plan_loop D L ps cut_ok hid s n acc = plan_loop D L ps cut_ok hid ?b (Suc n) ?acc"
          using True long ok by (subst plan_loop.simps) (simp add: Let_def)
        have "I ?b (Suc n) ?acc" using less.prems True long ok by (rule emit)
        from less.hyps [OF dec this] show ?thesis unfolding eq .
      next
        case bad: False
        have "plan_loop D L ps cut_ok hid s n acc = Some (Inl CalledProcessError)"
          using True long bad by (subst plan_loop.simps) (simp add: Let_def)
        with bad show ?thesis by auto
      qed
    next
      case short: False
      have eq: "plan_loop D L ps cut_ok hid s n acc = plan_loop D L ps cut_ok hid ?b n acc"
        using True short by (subst plan_loop.simps) (simp add: Let_def)
      have "I ?b n acc" using less.prems True short by (rule skip)
      from less.hyps [OF dec this] show ?thesis unfolding eq .
    qed
  qed
qed

definition tool_ok :: "rat \<Rightarrow> rat \<Rightarrow> string \<Rightarrow> bool" where
  "tool_ok start dur path = True"

fun contiguous_from :: "rat \<Rightarrow> chunk list \<Rightarrow> bool" where
  "contiguous_from a [] = True"
| "contiguous_from a (c # cs) = (c_start c = a \<and> contiguous_from (a + c_duration c) cs)"

definition covered :: "chunk list \<Rightarrow> rat" where
  "covered cs = sum_list (map c_duration cs)"

lemma contiguous_from_snoc:
  "contiguous_from a (cs @ [c]) = (contiguous_from a cs \<and> c_start c = a + covered cs)"
  by (induction cs arbitrary: a) (auto simp: covered_def add.assoc)

lemma contiguous_from_nth:
  "contiguous_from a cs \<Longrightarrow> Suc i < length cs \<Longrightarrow> c_start (cs ! Suc i) = c_start (cs ! i) + c_duration (cs ! i)"
proof (induction cs arbitrary: a i)
  case Nil
  then show ?case by simp
next
  case (Cons c cs)
  show ?case
  proof (cases i)
    case 0
    with Cons.prems show ?thesis by (cases cs) auto
  next
    case (Suc j)
    with Cons.prems Cons.IH [of "a + c_duration c" j] show ?thesis by simp
  qed
qed

lemma contiguous_from_hd: "contiguous_from a cs \<Longrightarrow> cs \<noteq> [] \<Longrightarrow> c_start (hd cs) = a"
  by (cases cs) auto

lemma contiguous_from_last:
  "contiguous_from a cs \<Longrightarrow> cs \<noteq> [] \<Longrightarrow> c_start (last cs) + c_duration (last cs) = a + covered cs"
proof (induction cs arbitrary: a)
  case Nil
  then show ?case by simp
next
  case (Cons c cs)
  then show ?case by (cases "cs = []") (auto simp: covered_def)
qed

lemma best_split_Nil [simp]: "best_split s t [] = t"
  by (simp add: best_split_def)

definition plan_inv :: "rat \<Rightarrow> rat \<Rightarrow> string \<Rightarrow> rat \<Rightarrow> nat \<Rightarrow> chunk list \<Rightarrow> bool" where
  "plan_inv D L hid s n acc \<longleftrightarrow>
     s \<le> D \<and> contiguous_from 0 acc \<and>
     (\<forall>c \<in> set acc. 1 / 2 < c_duration c \<and> c_duration c \<le> L) \<and>
     map c_index acc = [0..<n] \<and> map c_path acc = map (chunk_file hid) [0..<n] \<and>
     (covered acc = s \<or> (s = D \<and> D - 1 / 2 \<le> covered acc \<and> covered acc \<le> D))"

lemma covered_snoc: "covered (cs @ [c]) = covered cs + c_duration c"
  by (simp add: covered_def)

lemma plan_no_silence_long:
  assumes D: "0 < D" and L: "1 / 2 < L" and ok: "\<forall>a d p. cut_ok a d p"
  shows "\<exists>cs. plan_loop D L [] cut_ok hid 0 0 [] = Some (Inr cs) \<and> plan_inv D L hid D (length cs) cs"
proof -
  have L0: "0 < L" using L by simp
  have I0: "plan_inv D L hid 0 0 []" using D by (simp add: plan_inv_def covered_def)
  have emit: "plan_inv D L hid (best_split s (min (s + L) D) []) (Suc n)
              (acc @ [\<lparr>c_path = chunk_file hid n, c_start = s,
                        c_duration = best_split s (min (s + L) D) [] - s, c_index = n\<rparr>])"
    if "plan_inv D L hid s n acc" "s < D" "1 / 2 < best_split s (min (s + L) D) [] - s" for s n acc
    using that L0 by (auto simp: plan_inv_def contiguous_from_snoc covered_snoc min_def)
  have skip: "plan_inv D L hid (best_split s (min (s + L) D) []) n acc"
    if "plan_inv D L hid s n acc" "s < D" "\<not> 1 / 2 < best_split s (min (s + L) D) [] - s" for s n acc
    using that L by (auto simp: plan_inv_def min_def split: if_splits)
  from plan_loop_rule [where I = "plan_inv D L hid" and ps = "[]" and cut_ok = cut_ok and hid = hid,
      OF L0 I0 emit skip]
  obtain r where r: "plan_loop D L [] cut_ok hid 0 0 [] = Some r"
    and post: "\<forall>cs. r = Inr cs \<longrightarrow> (\<exists>s' n'. plan_inv D L hid s' n' cs \<and> \<not> s' < D)"
    and err: "\<forall>e. r = Inl e \<longrightarrow> e = CalledProcessError \<and> (\<exists>a d p. \<not> cut_ok a d p)"
    by blast
  from err ok obtain cs where cs: "r = Inr cs" by (cases r) auto
  with post obtain s' n' where inv: "plan_inv D L hid s' n' cs" and "\<not> s' < D" by blast
  then have "s' = D" by (simp add: plan_inv_def)
  moreover from inv have "n' = length cs"
    by (metis plan_inv_def length_map length_upt diff_zero)
  ultimately show ?thesis using r cs inv by simp
qed



lemma plan_no_silence_short:
  assumes L0: "0 < L" and L: "L \<le> 1 / 2" and ok: "\<forall>a d p. cut_ok a d p"
  shows "plan_loop D L [] cut_ok hid 0 0 [] = Some (Inr [])"
proof -
  define I :: "rat \<Rightarrow> nat \<Rightarrow> chunk list \<Rightarrow> bool" where "I = (\<lambda>s n acc. acc = [] \<and> n = 0)"
  have I0: "I 0 0 []" by (simp add: I_def)
  have short: "\<not> 1 / 2 < best_split s (min (s + L) D) [] - s" for s
    using L by (simp add: min_def)
  have emit: "I (best_split s (min (s + L) D) []) (Suc n)
              (acc @ [\<lparr>c_path = chunk_file hid n, c_start = s,
                        c_duration = best_split s (min (s + L) D) [] - s, c_index = n\<rparr>])"
    if "1 / 2 < best_split s (min (s + L) D) [] - s" for s n acc
    using that short [of s] by blast
  have skip: "I (best_split s (min (s + L) D) []) n acc" if "I s n acc" for s n acc
    using that by (simp add: I_def)
  from plan_loop_rule [where I = I and ps = "[]" and cut_ok = cut_ok and hid = hid,
      OF L0 I0 emit skip]
  obtain r where r: "plan_loop D L [] cut_ok hid 0 0 [] = Some r"
    and post: "\<forall>cs. r = Inr cs \<longrightarrow> (\<exists>s' n'. I s' n' cs \<and> \<not> s' < D)"
    and err: "\<forall>e. r = Inl e \<longrightarrow> e = CalledProcessError \<and> (\<exists>a d p. \<not> cut_ok a d p)"
    by blast
  from err ok obtain cs where cs: "r = Inr cs" by (cases r) auto
  with post have "cs = []" by (auto simp: I_def)
  with r cs show ?thesis by simp
qed

text \<open>
  Claim C2. In a planning step with current start \<open>s\<close> and target end
  \<open>t = min (s + L) D\<close>: when some silence period has a recorded end in
  \<open>(s, t + 5]\<close>, the split point is one of those ends and none of them is nearer to
  \<open>t\<close>; when there is none, the split point is \<open>t\<close> itself.
\<close>

theorem split_point_is_nearest_silence_end:
  "let t = min (s + L) D; b = best_split s t ps in
     (eligible_ends s t ps \<noteq> [] \<longrightarrow>
        b \<in> set (eligible_ends s t ps) \<and> (\<forall>e \<in> set (eligible_ends s t ps). \<bar>b - t\<bar> \<le> \<bar>e - t\<bar>)) \<and>
     (eligible_ends s t ps = [] \<longrightarrow> b = t)"
proof -
  have "eligible_ends s t ps = [] \<longleftrightarrow> eligible s t ps = {}" for t
    by (simp add: set_eligible_ends [symmetric])
  then show ?thesis
    using best_split_cases [of s "min (s + L) D" ps]
    by (auto simp: Let_def set_eligible_ends)
qed

definition sample_silences :: "silence list" where
  "sample_silences =
     [\<lparr>sil_start = 28, sil_end = Some 31\<rparr>, \<lparr>sil_start = 50, sil_end = Some 52\<rparr>,
      \<lparr>sil_start = 20, sil_end = Some 26\<rparr>, \<lparr>sil_start = 88, sil_end = None\<rparr>]"

theorem split_point_is_nearest_silence_end_witness:
  "eligible_ends 0 (min (0 + 30) 90) sample_silences \<noteq> [] \<and>
   best_split 0 (min (0 + 30) 90) sample_silences = 31 \<and>
   best_split 0 (min (0 + 30) 90) sample_silences \<in> set (eligible_ends 0 (min (0 + 30) 90) sample_silences) \<and>
   eligible_ends 61 (min (61 + 30) 90) sample_silences = [] \<and>
   best_split 61 (min (61 + 30) 90) sample_silences = 90"
proof -
  have h1: "eligible_ends 0 (min (0 + 30) 90) sample_silences \<noteq> []" by code_simp
  have h2: "eligible_ends 61 (min (61 + 30) 90) sample_silences = []" by code_simp
  have v: "best_split 0 (min (0 + 30) 90) sample_silences = 31" by code_simp
  from split_point_is_nearest_silence_end [of 0 30 90 sample_silences] h1
  have a: "best_split 0 (min (0 + 30) 90) sample_silences \<in> set (eligible_ends 0 (min (0 + 30) 90) sample_silences)"
    by (simp add: Let_def)
  from split_point_is_nearest_silence_end [of 61 30 90 sample_silences] h2
  have b: "best_split 61 (min (61 + 30) 90) sample_silences = 90"
    by (simp add: Let_def)
  from h1 h2 v a b show ?thesis by blast
qed

text \<open>
  Claim C9. With a positive chunk length the planning loop returns, from every state and
  for every duration and silence list: in each iteration the target end and the chosen
  split point are strictly greater than the current start, and the measure
  \<open>plan_measure\<close> (silence ends still ahead plus whole chunk lengths still
  ahead) strictly decreases.
\<close>

theorem planning_loop_terminates:
  assumes "0 < L"
  shows "(\<exists>r. plan_loop D L ps cut_ok hid s n acc = Some r) \<and>
         (\<exists>r. split_audio_with_silence_detection py_float cut_ok L D stderr_lines hid = Some r) \<and>
         (s < D \<longrightarrow> s < min (s + L) D \<and> s < best_split s (min (s + L) D) ps \<and>
            plan_measure D L ps (best_split s (min (s + L) D) ps) < plan_measure D L ps s)"
proof -
  have loop: "\<exists>r. plan_loop D L qs cut_ok hid a m cs = Some r" for qs a m cs
    using plan_loop_rule [where I = "\<lambda>_ _ _. True", OF assms] by blast
  have "\<exists>r. split_audio_with_silence_detection py_float cut_ok L D stderr_lines hid = Some r"
    using loop by (cases "parse_silence py_float [] stderr_lines")
      (simp_all add: split_audio_with_silence_detection_def)
  moreover have "s < min (s + L) D" if "s < D" using that assms by simp
  moreover have "s < best_split s (min (s + L) D) ps" if "s < D"
    using that assms by (intro best_split_advances) simp
  moreover have "plan_measure D L ps (best_split s (min (s + L) D) ps) < plan_measure D L ps s" if "s < D"
    using assms that by (rule plan_measure_decreases)
  ultimately show ?thesis using loop by blast
qed

theorem planning_loop_terminates_witness:
  "(0::rat) < 30 \<and> (\<exists>r. plan_loop 90 30 sample_silences tool_ok ''7'' 0 0 [] = Some r) \<and>
   (\<exists>r. split_audio_with_silence_detection sample_float tool_ok 30 90 sample_stderr ''7'' = Some r) \<and>
   (0::rat) < 90 \<and> (0::rat) < best_split 0 (min (0 + 30) 90) sample_silences"
proof -
  have h: "(0::rat) < 30" by simp
  have d: "(0::rat) < 90" by simp
  from planning_loop_terminates [OF h, of 90 sample_silences tool_ok "''7''" 0 0 "[]"
      sample_float sample_stderr] h d
  show ?thesis by blast
qed

lemma covered_ge_hd:
  assumes "\<forall>c \<in> set cs. 0 \<le> c_duration c" "cs \<noteq> []"
  shows "c_duration (hd cs) \<le> covered cs"
proof -
  obtain c rest where cs: "cs = c # rest" using assms(2) by (cases cs) auto
  have "0 \<le> sum_list (map c_duration rest)"
    using assms(1) cs by (intro sum_list_nonneg) auto
  then show ?thesis by (simp add: cs covered_def)
qed

lemma plan_inv_indices:
  assumes "plan_inv D L hid s n cs" "i < length cs"
  shows "c_index (cs ! i) = i \<and> c_path (cs ! i) = chunk_file hid i"
proof -
  from assms(1) have m: "map c_index cs = [0..<n]" "map c_path cs = map (chunk_file hid) [0..<n]"
    by (simp_all add: plan_inv_def)
  from m(1) have n: "n = length cs" by (metis length_map length_upt diff_zero)
  have "c_index (cs ! i) = map c_index cs ! i" using assms(2) by simp
  also have "\<dots> = i" using assms(2) n by (simp add: m(1))
  finally have a: "c_index (cs ! i) = i" .
  have "c_path (cs ! i) = map c_path cs ! i" using assms(2) by simp
  also have "\<dots> = chunk_file hid i" using assms(2) n by (simp add: m(2))
  finally show ?thesis using a by simp
qed

lemma plan_no_silence:
  assumes D: "0 < D" and L: "0 < L" and ok: "\<forall>a d p. cut_ok a d p"
  shows "\<exists>cs. plan_loop D L [] cut_ok hid 0 0 [] = Some (Inr cs) \<and>
     (cs \<noteq> [] \<longrightarrow> c_start (hd cs) = 0) \<and>
     (\<forall>i. Suc i < length cs \<longrightarrow> c_start (cs ! Suc i) = c_start (cs ! i) + c_duration (cs ! i)) \<and>
     (\<forall>c \<in> set cs. 1 / 2 < c_duration c \<and> c_duration c \<le> L) \<and>
     (\<forall>i < length cs. c_index (cs ! i) = i \<and> c_path (cs ! i) = chunk_file hid i) \<and>
     (L \<le> 1 / 2 \<or> D \<le> 1 / 2 \<longrightarrow> cs = []) \<and>
     (1 / 2 < L \<and> 1 / 2 < D \<longrightarrow>
        cs \<noteq> [] \<and> D - 1 / 2 \<le> c_start (last cs) + c_duration (last cs) \<and>
        c_start (last cs) + c_duration (last cs) \<le> D)"
proof (cases "L \<le> 1 / 2")
  case True
  have "plan_loop D L [] cut_ok hid 0 0 [] = Some (Inr [])"
    using L True ok by (rule plan_no_silence_short)
  with True show ?thesis by simp
next
  case False
  then have L2: "1 / 2 < L" by simp
  from plan_no_silence_long [OF D L2 ok, of hid]
  obtain cs where run: "plan_loop D L [] cut_ok hid 0 0 [] = Some (Inr cs)"
    and inv: "plan_inv D L hid D (length cs) cs" by blast
  from inv have cont: "contiguous_from 0 cs"
    and durs: "\<forall>c \<in> set cs. 1 / 2 < c_duration c \<and> c_duration c \<le> L"
    and cov: "D - 1 / 2 \<le> covered cs \<and> covered cs \<le> D"
    by (auto simp: plan_inv_def)
  have p1: "cs \<noteq> [] \<longrightarrow> c_start (hd cs) = 0"
    using cont by (simp add: contiguous_from_hd)
  have p2: "\<forall>i. Suc i < length cs \<longrightarrow> c_start (cs ! Suc i) = c_start (cs ! i) + c_duration (cs ! i)"
    using cont by (simp add: contiguous_from_nth)
  have p4: "\<forall>i < length cs. c_index (cs ! i) = i \<and> c_path (cs ! i) = chunk_file hid i"
    using inv by (simp add: plan_inv_indices)
  have p5: "cs = []" if "D \<le> 1 / 2"
  proof (rule ccontr)
    assume ne: "cs \<noteq> []"
    have "\<forall>c \<in> set cs. 0 \<le> c_duration c" using durs by fastforce
    then have "c_duration (hd cs) \<le> covered cs" using ne by (rule covered_ge_hd)
    moreover have "1 / 2 < c_duration (hd cs)" using durs ne by simp
    ultimately show False using cov that by simp
  qed
  have p6: "cs \<noteq> [] \<and> D - 1 / 2 \<le> c_start (last cs) + c_duration (last cs) \<and>
        c_start (last cs) + c_duration (last cs) \<le> D" if "1 / 2 < D"
  proof -
    have ne: "cs \<noteq> []"
    proof
      assume "cs = []"
      then have "covered cs = 0" by (simp add: covered_def)
      with cov that show False by simp
    qed
    from contiguous_from_last [OF cont ne] cov ne show ?thesis by simp
  qed
  from run p1 p2 durs p4 p5 p6 False show ?thesis by blast
qed

text \<open>Sample diagnostic output without silence markers.\<close>

definition quiet_stderr :: "string list" where
  "quiet_stderr =
     [''Input #0, wav, from 7_full.wav:'',
      ''size=N/A time=00:01:00.25 bitrate=N/A speed= 900x'']"

text \<open>
  Claim C1, as amended. When the parser finds no silence period, \<open>0 < D\<close>,
  \<open>0 < L\<close> and the codec tool never fails, the planner returns chunks that start at 0, each starting
  where the previous one ends, each longer than 0.5 s and at most \<open>L\<close> long,
  indexed 0, 1, 2, ... in order. They cover \<open>[0, E]\<close> with
  \<open>D - 0.5 \<le> E \<le> D\<close>: a final tail of at most 0.5 s is dropped, covered by no
  chunk. When \<open>L \<le> 0.5\<close> or \<open>D \<le> 0.5\<close> no chunk is emitted at all.
\<close>

theorem no_silence_chunks_contiguous_tail_dropped:
  assumes D: "0 < D" and L: "0 < L" and ok: "\<forall>a d p. cut_ok a d p"
    and quiet: "parse_silence py_float [] stderr_lines = Inr []"
  shows "\<exists>cs. split_audio_with_silence_detection py_float cut_ok L D stderr_lines hid = Some (Inr cs) \<and>
     (cs \<noteq> [] \<longrightarrow> c_start (hd cs) = 0) \<and>
     (\<forall>i. Suc i < length cs \<longrightarrow> c_start (cs ! Suc i) = c_start (cs ! i) + c_duration (cs ! i)) \<and>
     (\<forall>c \<in> set cs. 1 / 2 < c_duration c \<and> c_duration c \<le> L) \<and>
     (\<forall>i < length cs. c_index (cs ! i) = i \<and> c_path (cs ! i) = chunk_file hid i) \<and>
     (L \<le> 1 / 2 \<or> D \<le> 1 / 2 \<longrightarrow> cs = []) \<and>
     (1 / 2 < L \<and> 1 / 2 < D \<longrightarrow>
        cs \<noteq> [] \<and> D - 1 / 2 \<le> c_start (last cs) + c_duration (last cs) \<and>
        c_start (last cs) + c_duration (last cs) \<le> D)"
proof -
  have "split_audio_with_silence_detection py_float cut_ok L D stderr_lines hid =
      plan_loop D L [] cut_ok hid 0 0 []"
    by (simp add: split_audio_with_silence_detection_def quiet)
  then show ?thesis using plan_no_silence [OF D L ok, of hid] by simp
qed

theorem no_silence_chunks_contiguous_tail_dropped_witness:
  "(0::rat) < 241 / 4 \<and> (0::rat) < 30 \<and> parse_silence sample_float [] quiet_stderr = Inr [] \<and>
   (\<exists>cs. split_audio_with_silence_detection sample_float tool_ok 30 (241 / 4) quiet_stderr ''7'' =
          Some (Inr cs) \<and> cs \<noteq> [] \<and>
      c_start (hd cs) = 0 \<and> 241 / 4 - 1 / 2 \<le> c_start (last cs) + c_duration (last cs) \<and>
      c_start (last cs) + c_duration (last cs) \<le> 241 / 4)"
proof -
  have h1: "(0::rat) < 241 / 4" and h2: "(0::rat) < 30" and h3: "\<forall>a d p. tool_ok a d p"
    and h4: "(1::rat) / 2 < 30 \<and> (1::rat) / 2 < 241 / 4"
    by (simp_all add: tool_ok_def)
  have q: "parse_silence sample_float [] quiet_stderr = Inr []" by code_simp
  from no_silence_chunks_contiguous_tail_dropped [OF h1 h2 h3 q, of "''7''"] h4 h1 h2 q
  show ?thesis by blast
qed

text \<open>
  The claim as first stated (the spans partition \<open>[0, D]\<close> exactly) fails: for
  \<open>D = 60.25\<close> and \<open>L = 30\<close> the chunks are \<open>[0, 30)\<close> and
  \<open>[30, 60)\<close>, and the last span ends at 60, not at \<open>D\<close>.
\<close>

theorem short_tail_is_dropped_counterexample:
  "parse_silence sample_float [] quiet_stderr = Inr [] \<and>
   split_audio_with_silence_detection sample_float tool_ok 30 (241 / 4) quiet_stderr ''7'' =
     Some (Inr [\<lparr>c_path = ''7_chunk_000.wav'', c_start = 0, c_duration = 30, c_index = 0\<rparr>,
                \<lparr>c_path = ''7_chunk_001.wav'', c_start = 30, c_duration = 30, c_index = 1\<rparr>]) \<and>
   c_start \<lparr>c_path = ''7_chunk_001.wav'', c_start = 30, c_duration = 30, c_index = 1\<rparr> +
   c_duration \<lparr>c_path = ''7_chunk_001.wav'', c_start = 30, c_duration = 30, c_index = 1\<rparr> \<noteq> 241 / 4"
  by code_simp

section \<open>Silence periods recorded by the parser\<close>

text \<open>
  What the claim calls observing markers: a start marker at line \<open>i\<close> and its
  matching end marker at a later line \<open>j\<close>, with no marker in between; and a start
  marker that no later marker answers.
\<close>

definition is_start_line :: "string \<Rightarrow> bool" where
  "is_start_line line \<longleftrightarrow> contains ''silence_start:'' line"

definition is_end_line :: "string \<Rightarrow> bool" where
  "is_end_line line \<longleftrightarrow> \<not> contains ''silence_start:'' line \<and> contains ''silence_end:'' line"

definition quiet_line :: "string \<Rightarrow> bool" where
  "quiet_line line \<longleftrightarrow> \<not> is_start_line line \<and> \<not> is_end_line line"

definition start_end_observed :: "(string \<Rightarrow> rat option) \<Rightarrow> string list \<Rightarrow> rat \<Rightarrow> rat \<Rightarrow> bool" where
  "start_end_observed py_float lines a e \<longleftrightarrow>
     (\<exists>j \<in> {..<length lines}. \<exists>i \<in> {..<j}.
        is_start_line (lines ! i) \<and> number_after py_float ''silence_start: '' (lines ! i) = Inr a \<and>
        is_end_line (lines ! j) \<and> number_after py_float ''silence_end: '' (lines ! j) = Inr e \<and>
        (\<forall>k \<in> {i<..<j}. quiet_line (lines ! k)))"

definition start_unanswered :: "(string \<Rightarrow> rat option) \<Rightarrow> string list \<Rightarrow> rat \<Rightarrow> bool" where
  "start_unanswered py_float lines a \<longleftrightarrow>
     (\<exists>i \<in> {..<length lines}.
        is_start_line (lines ! i) \<and> number_after py_float ''silence_start: '' (lines ! i) = Inr a \<and>
        (\<forall>k \<in> {i<..<length lines}. quiet_line (lines ! k)))"

lemma start_end_observed_iff:
  "start_end_observed f lines a e \<longleftrightarrow>
     (\<exists>i j. i < j \<and> j < length lines \<and>
        is_start_line (lines ! i) \<and> number_after f ''silence_start: '' (lines ! i) = Inr a \<and>
        is_end_line (lines ! j) \<and> number_after f ''silence_end: '' (lines ! j) = Inr e \<and>
        (\<forall>k. i < k \<and> k < j \<longrightarrow> \<not> is_start_line (lines ! k) \<and> \<not> is_end_line (lines ! k)))"
  unfolding start_end_observed_def quiet_line_def by fastforce

lemma start_unanswered_iff:
  "start_unanswered f lines a \<longleftrightarrow>
     (\<exists>i. i < length lines \<and>
        is_start_line (lines ! i) \<and> number_after f ''silence_start: '' (lines ! i) = Inr a \<and>
        (\<forall>k. i < k \<and> k < length lines \<longrightarrow> \<not> is_start_line (lines ! k) \<and> \<not> is_end_line (lines ! k)))"
  unfolding start_unanswered_def quiet_line_def by fastforce

lemma parse_silence_append:
  "parse_silence f ps (xs @ ys) =
     (case parse_silence f ps xs of Inl e \<Rightarrow> Inl e | Inr ps' \<Rightarrow> parse_silence f ps' ys)"
  by (induction xs arbitrary: ps) (auto split: sum.splits)

lemma parse_silence_snoc:
  "parse_silence f ps (xs @ [l]) =
     (case parse_silence f ps xs of Inl e \<Rightarrow> Inl e | Inr ps' \<Rightarrow> parse_line f ps' l)"
  by (simp add: parse_silence_append split: sum.splits)

lemma start_end_observed_snoc:
  "start_end_observed f lines a e \<Longrightarrow> start_end_observed f (lines @ [l]) a e"
  unfolding start_end_observed_iff
  apply (elim exE conjE)
  subgoal for i j
    apply (rule exI [of _ i], rule exI [of _ j])
    apply (simp add: nth_append)
    done
  done

lemma start_unanswered_quiet:
  assumes "start_unanswered f lines a" "\<not> is_start_line l" "\<not> is_end_line l"
  shows "start_unanswered f (lines @ [l]) a"
proof -
  from assms(1) obtain i where i: "i < length lines" "is_start_line (lines ! i)"
      "number_after f ''silence_start: '' (lines ! i) = Inr a"
      "\<forall>k. i < k \<and> k < length lines \<longrightarrow> \<not> is_start_line (lines ! k) \<and> \<not> is_end_line (lines ! k)"
    unfolding start_unanswered_iff by blast
  have "\<not> is_start_line ((lines @ [l]) ! k) \<and> \<not> is_end_line ((lines @ [l]) ! k)"
    if "i < k" "k < length (lines @ [l])" for k
  proof (cases "k < length lines")
    case True
    with i(4) that show ?thesis by (simp add: nth_append)
  next
    case False
    with that have "k = length lines" by simp
    with assms(2,3) show ?thesis by simp
  qed
  with i(1,2,3) show ?thesis
    unfolding start_unanswered_iff
    by (intro exI [of _ i]) (simp add: nth_append)
qed

lemma start_unanswered_end:
  assumes "start_unanswered f lines a" "is_end_line l" "number_after f ''silence_end: '' l = Inr e"
  shows "start_end_observed f (lines @ [l]) a e"
proof -
  from assms(1) obtain i where i: "i < length lines" "is_start_line (lines ! i)"
      "number_after f ''silence_start: '' (lines ! i) = Inr a"
      "\<forall>k. i < k \<and> k < length lines \<longrightarrow> \<not> is_start_line (lines ! k) \<and> \<not> is_end_line (lines ! k)"
    unfolding start_unanswered_iff by blast
  show ?thesis
    unfolding start_end_observed_iff
    using i assms(2,3)
    by (intro exI [of _ i] exI [of _ "length lines"]) (simp add: nth_append)
qed

lemma start_unanswered_new:
  assumes "is_start_line l" "number_after f ''silence_start: '' l = Inr a"
  shows "start_unanswered f (lines @ [l]) a"
  unfolding start_unanswered_iff
  using assms by (intro exI [of _ "length lines"]) auto

definition parse_inv :: "(string \<Rightarrow> rat option) \<Rightarrow> string list \<Rightarrow> silence list \<Rightarrow> bool" where
  "parse_inv f lines ps \<longleftrightarrow>
     (\<forall>p \<in> set ps. \<forall>e. sil_end p = Some e \<longrightarrow> start_end_observed f lines (sil_start p) e) \<and>
     (ps \<noteq> [] \<and> sil_end (last ps) = None \<longrightarrow> start_unanswered f lines (sil_start (last ps)))"

lemma parse_line_inv:
  assumes inv: "parse_inv f lines ps" and step: "parse_line f ps l = Inr ps'"
  shows "parse_inv f (lines @ [l]) ps'"
proof (cases "contains ''silence_start:'' l")
  case True
  with step obtain a where a: "number_after f ''silence_start: '' l = Inr a"
    and ps': "ps' = ps @ [\<lparr>sil_start = a, sil_end = None\<rparr>]"
    by (auto simp: parse_line_def split: sum.splits)
  have "start_unanswered f (lines @ [l]) a"
    using True a by (intro start_unanswered_new) (simp add: is_start_line_def)
  moreover have "\<forall>p \<in> set ps. \<forall>e. sil_end p = Some e \<longrightarrow> start_end_observed f (lines @ [l]) (sil_start p) e"
    using inv by (auto simp: parse_inv_def intro: start_end_observed_snoc)
  ultimately show ?thesis by (simp add: parse_inv_def ps')
next
  case nostart: False
  show ?thesis
  proof (cases "contains ''silence_end:'' l \<and> ps \<noteq> [] \<and> sil_end (last ps) = None")
    case True
    with nostart step obtain e where e: "number_after f ''silence_end: '' l = Inr e"
      and ps': "ps' = butlast ps @ [(last ps)\<lparr>sil_end := Some e\<rparr>]"
      by (auto simp: parse_line_def split: sum.splits)
    from True inv have "start_unanswered f lines (sil_start (last ps))"
      by (simp add: parse_inv_def)
    moreover have "is_end_line l" using nostart True by (simp add: is_end_line_def)
    ultimately have new: "start_end_observed f (lines @ [l]) (sil_start (last ps)) e"
      using e by (intro start_unanswered_end)
    have old: "\<forall>p \<in> set (butlast ps). \<forall>e. sil_end p = Some e \<longrightarrow> start_end_observed f (lines @ [l]) (sil_start p) e"
      using inv by (auto simp: parse_inv_def intro: start_end_observed_snoc dest: in_set_butlastD)
    from new old show ?thesis by (simp add: parse_inv_def ps')
  next
    case False
    with nostart step have ps': "ps' = ps" by (auto simp: parse_line_def)
    have old: "\<forall>p \<in> set ps. \<forall>e. sil_end p = Some e \<longrightarrow> start_end_observed f (lines @ [l]) (sil_start p) e"
      using inv by (auto simp: parse_inv_def intro: start_end_observed_snoc)
    have "start_unanswered f (lines @ [l]) (sil_start (last ps))"
      if "ps \<noteq> []" "sil_end (last ps) = None"
    proof -
      from that inv have u: "start_unanswered f lines (sil_start (last ps))" by (simp add: parse_inv_def)
      from that False have "\<not> contains ''silence_end:'' l" by simp
      then have "\<not> is_end_line l" by (simp add: is_end_line_def)
      moreover have "\<not> is_start_line l" using nostart by (simp add: is_start_line_def)
      ultimately show ?thesis using u by (intro start_unanswered_quiet)
    qed
    with old show ?thesis by (simp add: parse_inv_def ps')
  qed
qed

lemma parse_silence_inv:
  "parse_silence f [] lines = Inr ps \<Longrightarrow> parse_inv f lines ps"
proof (induction lines arbitrary: ps rule: rev_induct)
  case Nil
  then show ?case by (auto simp: parse_inv_def)
next
  case (snoc l lines)
  from snoc.prems obtain ps0 where ps0: "parse_silence f [] lines = Inr ps0"
    and step: "parse_line f ps0 l = Inr ps"
    by (auto simp: parse_silence_snoc split: sum.splits)
  from snoc.IH [OF ps0] step show ?case by (rule parse_line_inv)
qed


lemma quiet_lines_keep:
  assumes "\<forall>r \<in> set rest. quiet_line r"
  shows "parse_silence f ps rest = Inr ps"
  using assms
  by (induction rest) (auto simp: parse_line_def quiet_line_def is_start_line_def is_end_line_def)

lemma nearest_silence_ignores_open:
  "nearest_silence s t (filter (\<lambda>p. sil_end p \<noteq> None) ps) st = nearest_silence s t ps st"
proof (induction ps arbitrary: st)
  case Nil
  then show ?case by simp
next
  case (Cons p ps)
  obtain b md where st: "st = (b, md)" by (cases st)
  show ?case
    using Cons.IH by (cases "sil_end p") (simp_all add: st Let_def)
qed

lemma unanswered_start_stays_open:
  assumes run: "parse_silence f [] lines = Inr ps" and u: "start_unanswered f lines a"
  shows "ps \<noteq> [] \<and> sil_end (last ps) = None \<and> sil_start (last ps) = a"
proof -
  from u obtain i where i: "i < length lines" "is_start_line (lines ! i)"
      "number_after f ''silence_start: '' (lines ! i) = Inr a"
      "\<forall>k. i < k \<and> k < length lines \<longrightarrow> \<not> is_start_line (lines ! k) \<and> \<not> is_end_line (lines ! k)"
    unfolding start_unanswered_iff by blast
  let ?pre = "take i lines" and ?rest = "drop (Suc i) lines"
  have split: "lines = (?pre @ [lines ! i]) @ ?rest"
    using i(1) by (simp add: id_take_nth_drop [symmetric])
  have quiet: "\<forall>r \<in> set ?rest. quiet_line r"
  proof
    fix r assume "r \<in> set ?rest"
    then obtain m where m: "m < length ?rest" "r = ?rest ! m" by (auto simp: in_set_conv_nth)
    then have "r = lines ! (Suc i + m)" by simp
    moreover have "i < Suc i + m \<and> Suc i + m < length lines" using m(1) by auto
    ultimately show "quiet_line r" using i(4) by (simp add: quiet_line_def)
  qed
  from run split have "parse_silence f [] ((?pre @ [lines ! i]) @ ?rest) = Inr ps" by simp
  then obtain ps1 where ps1: "parse_silence f [] (?pre @ [lines ! i]) = Inr ps1"
    and rest: "parse_silence f ps1 ?rest = Inr ps"
    unfolding parse_silence_append by (auto split: sum.splits)
  from rest quiet_lines_keep [OF quiet, of f ps1] have eq: "ps = ps1" by simp
  from ps1 obtain ps0 where "parse_line f ps0 (lines ! i) = Inr ps1"
    by (auto simp: parse_silence_snoc split: sum.splits)
  with i(2,3) have "ps1 = ps0 @ [\<lparr>sil_start = a, sil_end = None\<rparr>]"
    by (auto simp: parse_line_def is_start_line_def)
  with eq show ?thesis by simp
qed

text \<open>
  Claim C8. When the parser returns \<open>ps\<close>: every period of \<open>ps\<close> with a
  recorded end comes from a start marker and a later matching end marker among the lines;
  a start marker that no later marker answers leaves the last period without an end;
  and periods without an end never change the split point chosen by the planner.
\<close>

theorem silence_needs_start_and_end:
  assumes run: "parse_silence py_float [] lines = Inr ps"
  shows "(\<forall>p \<in> set ps. \<forall>e. sil_end p = Some e \<longrightarrow> start_end_observed py_float lines (sil_start p) e) \<and>
         (\<forall>a. start_unanswered py_float lines a \<longrightarrow>
              ps \<noteq> [] \<and> sil_end (last ps) = None \<and> sil_start (last ps) = a) \<and>
         (\<forall>s t. best_split s t ps = best_split s t (filter (\<lambda>p. sil_end p \<noteq> None) ps))"
proof -
  from parse_silence_inv [OF run]
  have a: "\<forall>p \<in> set ps. \<forall>e. sil_end p = Some e \<longrightarrow> start_end_observed py_float lines (sil_start p) e"
    by (simp add: parse_inv_def)
  have b: "\<forall>a. start_unanswered py_float lines a \<longrightarrow>
              ps \<noteq> [] \<and> sil_end (last ps) = None \<and> sil_start (last ps) = a"
    using unanswered_start_stays_open [OF run] by blast
  have c: "\<forall>s t. best_split s t ps = best_split s t (filter (\<lambda>p. sil_end p \<noteq> None) ps)"
    unfolding best_split_def nearest_silence_ignores_open by simp
  from a b c show ?thesis by blast
qed

theorem silence_needs_start_and_end_witness:
  "parse_silence sample_float [] sample_stderr =
     Inr [\<lparr>sil_start = 57 / 2, sil_end = Some 31\<rparr>, \<lparr>sil_start = 353 / 4, sil_end = None\<rparr>] \<and>
   start_end_observed sample_float sample_stderr (57 / 2) 31 \<and>
   start_unanswered sample_float sample_stderr (353 / 4) \<and>
   sil_end (last [\<lparr>sil_start = 57 / 2, sil_end = Some 31\<rparr>, \<lparr>sil_start = 353 / 4, sil_end = None\<rparr>]) = None \<and>
   best_split 61 90 [\<lparr>sil_start = 57 / 2, sil_end = Some 31\<rparr>, \<lparr>sil_start = 353 / 4, sil_end = None\<rparr>] =
     best_split 61 90 [\<lparr>sil_start = 57 / 2, sil_end = Some 31\<rparr>]"
proof -
  let ?ps = "[\<lparr>sil_start = 57 / 2, sil_end = Some 31\<rparr>, \<lparr>sil_start = 353 / 4, sil_end = None\<rparr>]"
  have run: "parse_silence sample_float [] sample_stderr = Inr ?ps" by code_simp
  have u: "start_unanswered sample_float sample_stderr (353 / 4)" by code_simp
  note inst = silence_needs_start_and_end [OF run]
  from inst have "\<forall>p \<in> set ?ps. \<forall>e. sil_end p = Some e \<longrightarrow>
      start_end_observed sample_float sample_stderr (sil_start p) e" by blast
  then have a: "start_end_observed sample_float sample_stderr (57 / 2) 31" by simp
  from inst u have b: "sil_end (last ?ps) = None" by blast
  from inst have "best_split 61 90 ?ps = best_split 61 90 (filter (\<lambda>p. sil_end p \<noteq> None) ?ps)"
    by blast
  then have c: "best_split 61 90 ?ps = best_split 61 90 [\<lparr>sil_start = 57 / 2, sil_end = Some 31\<rparr>]"
    by simp
  from run a u b c show ?thesis by blast
qed

section \<open>Merge engine: \<open>merge_chunks\<close>\<close>

text \<open>
  A segment is the dict with keys start, end, text; a chunk result is the dict with keys
  text, segments, chunk_index, where \<open>segments\<close> may be absent
  (\<open>chunk.get('segments', [])\<close>).
\<close>

record segment =
  seg_start :: rat
  seg_end :: rat
  seg_text :: string

record chunk_result =
  r_text :: string
  r_segments :: "segment list option"
  r_chunk_index :: nat

record transcript =
  t_text :: string
  t_segments :: "segment list"

definition get_segments :: "chunk_result \<Rightarrow> segment list" where
  "get_segments chunk = (case r_segments chunk of None \<Rightarrow> [] | Some ss \<Rightarrow> ss)"

text \<open>
  \<open>merge_chunks\<close> sorts the caller's list in place (Python's sort is stable, as
  \<open>sort_key\<close> is). The model returns the merged transcript together with the
  final contents of the caller's list.
\<close>

definition merge_chunks :: "chunk_result list \<Rightarrow> transcript \<times> chunk_result list" where
  "merge_chunks chunk_results =
     (let sorted_results = sort_key r_chunk_index chunk_results;
          full_text = join [CHR 0x0A, CHR 0x0A]
                        (map r_text (filter (\<lambda>chunk. r_text chunk \<noteq> []) sorted_results));
          all_segments = foldl (\<lambda>acc chunk. acc @ get_segments chunk) [] sorted_results
      in (\<lparr>t_text = strip full_text, t_segments = sort_key seg_start all_segments\<rparr>,
          sorted_results))"

text \<open>Sample chunk results with a repeated index.\<close>

definition dup_first :: chunk_result where
  "dup_first = \<lparr>r_text = '' a'', r_segments = None, r_chunk_index = 0\<rparr>"

definition dup_second :: chunk_result where
  "dup_second = \<lparr>r_text = ''b'', r_segments = Some [], r_chunk_index = 0\<rparr>"

lemma foldl_extend:
  "foldl (\<lambda>acc chunk. acc @ get_segments chunk) a xs = a @ concat (map get_segments xs)"
  by (induction xs arbitrary: a) auto

lemma mset_concat_perm:
  assumes "mset xs = mset ys"
  shows "mset (concat (map g xs)) = mset (concat (map g ys))"
proof -
  have "mset (concat (map g zs)) = sum_mset (image_mset (\<lambda>z. mset (g z)) (mset zs))" for zs
    by (induction zs) auto
  with assms show ?thesis by simp
qed

lemma filter_unique_key:
  assumes "distinct (map f xs)" "k \<in> set xs"
  shows "filter (\<lambda>x. f k = f x) xs = [k]"
  using assms
proof (induction xs)
  case Nil
  then show ?case by simp
next
  case (Cons x xs)
  show ?case
  proof (cases "k = x")
    case True
    have "filter (\<lambda>y. f x = f y) xs = []"
      using Cons.prems(1) by (auto simp: filter_empty_conv)
    with True show ?thesis by simp
  next
    case False
    with Cons.prems have k: "k \<in> set xs" by simp
    then have "f k \<noteq> f x" using Cons.prems(1) by (metis distinct.simps(2) image_eqI list.simps(9) set_map)
    with Cons.IH k Cons.prems(1) show ?thesis by simp
  qed
qed

lemma sort_key_perm_distinct:
  assumes d: "distinct (map f xs)" and p: "mset ys = mset xs"
  shows "sort_key f ys = sort_key f xs"
proof (rule properties_for_sort_key)
  show "mset (sort_key f xs) = mset ys" using p by simp
  show "sorted (map f (sort_key f xs))" by simp
  fix k assume "k \<in> set (sort_key f xs)"
  then have kx: "k \<in> set xs" by simp
  then have ky: "k \<in> set ys" using p by (metis mset_eq_setD)
  have "mset (map f ys) = mset (map f xs)" using p by simp
  then have dy: "distinct (map f ys)" using d by (metis mset_eq_imp_distinct_iff)
  have "filter (\<lambda>x. f k = f x) (sort_key f xs) = filter (\<lambda>x. f k = f x) xs"
    using sort_key_stable [of f "f k" xs] by (simp add: eq_commute)
  also have "\<dots> = [k]" using d kx by (rule filter_unique_key)
  also have "\<dots> = filter (\<lambda>x. f k = f x) ys" using dy ky by (rule filter_unique_key [symmetric])
  finally show "filter (\<lambda>x. f k = f x) (sort_key f xs) = filter (\<lambda>x. f k = f x) ys" .
qed

lemma merge_chunks_text:
  "t_text (fst (merge_chunks xs)) =
     strip (join [CHR 0x0A, CHR 0x0A]
       (filter (\<lambda>t. t \<noteq> []) (map r_text (sort_key r_chunk_index xs))))"
  by (simp add: merge_chunks_def Let_def filter_map comp_def)

lemma merge_chunks_segments:
  "t_segments (fst (merge_chunks xs)) =
     sort_key seg_start (concat (map get_segments (sort_key r_chunk_index xs)))"
  by (simp add: merge_chunks_def Let_def foldl_extend)

lemma merge_chunks_snd: "snd (merge_chunks xs) = sort_key r_chunk_index xs"
  by (simp add: merge_chunks_def Let_def)

definition trimmed :: "string \<Rightarrow> bool" where
  "trimmed t \<longleftrightarrow> t = [] \<or> (\<not> isspace (hd t) \<and> \<not> isspace (last t))"

lemma last_dropWhile_nonempty:
  assumes "dropWhile P xs \<noteq> []"
  shows "last (dropWhile P xs) = last xs"
proof -
  have "last xs = last (takeWhile P xs @ dropWhile P xs)" by simp
  also have "\<dots> = last (dropWhile P xs)" using assms by (rule last_appendR)
  finally show ?thesis by simp
qed

lemma strip_trimmed: "trimmed t \<Longrightarrow> strip t = t"
proof (cases "t = []")
  case True
  then show ?thesis by (simp add: strip_def)
next
  case False
  assume "trimmed t"
  with False have h: "\<not> isspace (hd t)" and l: "\<not> isspace (last t)"
    by (simp_all add: trimmed_def)
  from False h have a: "dropWhile isspace t = t" by (cases t) auto
  from False l have "\<not> isspace (hd (rev t))" by (simp add: hd_rev)
  with False have b: "dropWhile isspace (rev t) = rev t" by (cases "rev t") auto
  show ?thesis by (simp add: strip_def a b)
qed

lemma trimmed_strip: "trimmed (strip s)"
proof (cases "strip s = []")
  case True
  then show ?thesis by (simp add: trimmed_def)
next
  case False
  let ?u = "dropWhile isspace s"
  let ?v = "dropWhile isspace (rev ?u)"
  have s: "strip s = rev ?v" by (simp add: strip_def)
  from False s have v: "?v \<noteq> []" by simp
  have u: "?u \<noteq> []"
  proof
    assume e: "?u = []"
    have "?v = dropWhile isspace (rev [])" by (simp only: e)
    with v show False by simp
  qed
  have "\<not> isspace (hd ?v)" using v by (rule hd_dropWhile)
  then have l: "\<not> isspace (last (strip s))" using v by (simp add: s last_rev)
  have "last ?v = last (rev ?u)" using v by (rule last_dropWhile_nonempty)
  also have "\<dots> = hd ?u" using u by (simp add: last_rev)
  finally have "hd (strip s) = hd ?u" using v by (simp add: s hd_rev)
  moreover have "\<not> isspace (hd ?u)" using u by (rule hd_dropWhile)
  ultimately show ?thesis using l by (simp add: trimmed_def)
qed

lemma join_nonempty:
  assumes "ts \<noteq> []" "\<forall>t \<in> set ts. t \<noteq> []"
  shows "join sep ts \<noteq> [] \<and> hd (join sep ts) = hd (hd ts) \<and> last (join sep ts) = last (last ts)"
  using assms
proof (induction sep ts rule: join.induct)
  case (1 sep)
  then show ?case by simp
next
  case (2 sep x)
  then show ?case by simp
next
  case (3 sep x y ys)
  then have "join sep (y # ys) \<noteq> [] \<and> last (join sep (y # ys)) = last (last (y # ys))" by simp
  moreover have "x \<noteq> []" using "3.prems" by simp
  ultimately show ?case by simp
qed

lemma trimmed_join:
  assumes "\<forall>t \<in> set ts. t \<noteq> [] \<and> trimmed t"
  shows "trimmed (join sep ts)"
proof (cases "ts = []")
  case True
  then show ?thesis by (simp add: trimmed_def)
next
  case False
  with assms have j: "join sep ts \<noteq> [] \<and> hd (join sep ts) = hd (hd ts) \<and> last (join sep ts) = last (last ts)"
    by (intro join_nonempty) auto
  from False assms have "hd ts \<noteq> [] \<and> trimmed (hd ts)" "last ts \<noteq> [] \<and> trimmed (last ts)"
    by simp_all
  with j show ?thesis unfolding trimmed_def by metis
qed

text \<open>
  Claim C3, as amended. For chunk results with pairwise distinct indices, every
  permutation of the list merges to the same full text: the whitespace-stripped
  paragraph-separated join of the non-empty chunk texts in ascending index order. When
  no chunk text begins or ends with whitespace (as the chunk worker produces them), the
  stripping changes nothing and the text is the join itself.
\<close>

theorem merged_text_in_index_order:
  assumes d: "distinct (map r_chunk_index xs)" and p: "mset ys = mset xs"
  shows "t_text (fst (merge_chunks ys)) = t_text (fst (merge_chunks xs)) \<and>
         t_text (fst (merge_chunks xs)) =
           strip (join [CHR 0x0A, CHR 0x0A]
             (filter (\<lambda>t. t \<noteq> []) (map r_text (sort_key r_chunk_index xs)))) \<and>
         sorted (map r_chunk_index (sort_key r_chunk_index xs)) \<and>
         mset (sort_key r_chunk_index xs) = mset xs \<and>
         ((\<forall>c \<in> set xs. trimmed (r_text c)) \<longrightarrow>
            t_text (fst (merge_chunks xs)) =
              join [CHR 0x0A, CHR 0x0A]
                (filter (\<lambda>t. t \<noteq> []) (map r_text (sort_key r_chunk_index xs))))"
proof -
  have same: "sort_key r_chunk_index ys = sort_key r_chunk_index xs"
    using d p by (rule sort_key_perm_distinct)
  have a: "t_text (fst (merge_chunks ys)) = t_text (fst (merge_chunks xs))"
    by (simp add: merge_chunks_text same)
  have b: "t_text (fst (merge_chunks xs)) =
      join [CHR 0x0A, CHR 0x0A] (filter (\<lambda>t. t \<noteq> []) (map r_text (sort_key r_chunk_index xs)))"
    if "\<forall>c \<in> set xs. trimmed (r_text c)"
  proof -
    have "\<forall>t \<in> set (filter (\<lambda>t. t \<noteq> []) (map r_text (sort_key r_chunk_index xs))). t \<noteq> [] \<and> trimmed t"
      using that by auto
    then have "trimmed (join [CHR 0x0A, CHR 0x0A]
        (filter (\<lambda>t. t \<noteq> []) (map r_text (sort_key r_chunk_index xs))))"
      by (rule trimmed_join)
    then show ?thesis by (simp add: merge_chunks_text strip_trimmed)
  qed
  from a b show ?thesis by (simp add: merge_chunks_text)
qed

definition result_a :: chunk_result where
  "result_a = \<lparr>r_text = ''first'', r_segments = Some [\<lparr>seg_start = 0, seg_end = 2, seg_text = ''first''\<rparr>], r_chunk_index = 0\<rparr>"

definition result_b :: chunk_result where
  "result_b = \<lparr>r_text = [], r_segments = None, r_chunk_index = 1\<rparr>"

definition result_c :: chunk_result where
  "result_c = \<lparr>r_text = ''third'', r_segments = Some [\<lparr>seg_start = 61, seg_end = 63, seg_text = ''third''\<rparr>,
       \<lparr>seg_start = 61, seg_end = 70, seg_text = ''more''\<rparr>], r_chunk_index = 2\<rparr>"

theorem merged_text_in_index_order_witness:
  "distinct (map r_chunk_index [result_a, result_b, result_c]) \<and>
   mset [result_c, result_a, result_b] = mset [result_a, result_b, result_c] \<and>
   t_text (fst (merge_chunks [result_c, result_a, result_b])) =
     t_text (fst (merge_chunks [result_a, result_b, result_c])) \<and>
   t_text (fst (merge_chunks [result_a, result_b, result_c])) =
     ''first'' @ [CHR 0x0A, CHR 0x0A] @ ''third''"
proof -
  have h1: "distinct (map r_chunk_index [result_a, result_b, result_c])" by code_simp
  have h2: "mset [result_c, result_a, result_b] = mset [result_a, result_b, result_c]" by simp
  have h3: "\<forall>c \<in> set [result_a, result_b, result_c]. trimmed (r_text c)" by code_simp
  have v: "join [CHR 0x0A, CHR 0x0A]
      (filter (\<lambda>t. t \<noteq> []) (map r_text (sort_key r_chunk_index [result_a, result_b, result_c])))
      = ''first'' @ [CHR 0x0A, CHR 0x0A] @ ''third''" by code_simp
  note inst = merged_text_in_index_order [OF h1 h2]
  from inst have a: "t_text (fst (merge_chunks [result_c, result_a, result_b])) =
     t_text (fst (merge_chunks [result_a, result_b, result_c]))" by blast
  from inst h3 have "t_text (fst (merge_chunks [result_a, result_b, result_c])) =
      join [CHR 0x0A, CHR 0x0A]
        (filter (\<lambda>t. t \<noteq> []) (map r_text (sort_key r_chunk_index [result_a, result_b, result_c])))"
    by blast
  then have b: "t_text (fst (merge_chunks [result_a, result_b, result_c])) =
      ''first'' @ [CHR 0x0A, CHR 0x0A] @ ''third''" by (simp only: v)
  from h1 h2 a b show ?thesis by blast
qed

text \<open>
  The claim as first stated fails for two chunks with the same index (the stable sort
  keeps their input order, so the two orders give two texts) and for a chunk text with
  leading whitespace (the result is stripped, so it is not the join).
\<close>

theorem merged_text_counterexample:
  "mset [dup_second, dup_first] = mset [dup_first, dup_second] \<and>
   t_text (fst (merge_chunks [dup_first, dup_second])) \<noteq>
     t_text (fst (merge_chunks [dup_second, dup_first])) \<and>
   t_text (fst (merge_chunks [dup_first, dup_second])) \<noteq>
     join [CHR 0x0A, CHR 0x0A] (map r_text [dup_first, dup_second])"
proof -
  have "mset [dup_second, dup_first] = mset [dup_first, dup_second]" by simp
  moreover have "t_text (fst (merge_chunks [dup_first, dup_second])) \<noteq>
     t_text (fst (merge_chunks [dup_second, dup_first]))" by code_simp
  moreover have "t_text (fst (merge_chunks [dup_first, dup_second])) \<noteq>
     join [CHR 0x0A, CHR 0x0A] (map r_text [dup_first, dup_second])" by code_simp
  ultimately show ?thesis by blast
qed

text \<open>
  Claim C4. For every list of chunk results and every permutation of it, the merged
  segments are sorted by start time, are exactly the segments of the input chunks
  (as a multiset: nothing removed, nothing added), and segments with equal start times
  keep the relative order they have in the flattened sequence.
\<close>

theorem merged_segments_sorted_stable:
  assumes p: "mset ys = mset xs"
  shows "sorted (map seg_start (t_segments (fst (merge_chunks ys)))) \<and>
         mset (t_segments (fst (merge_chunks ys))) = mset (concat (map get_segments xs)) \<and>
         (\<forall>k. filter (\<lambda>g. seg_start g = k) (t_segments (fst (merge_chunks ys))) =
              filter (\<lambda>g. seg_start g = k)
                (concat (map get_segments (sort_key r_chunk_index ys))))"
proof -
  have "mset (sort_key r_chunk_index ys) = mset xs" using p by simp
  then have "mset (concat (map get_segments (sort_key r_chunk_index ys))) =
      mset (concat (map get_segments xs))" by (rule mset_concat_perm)
  then have m: "mset (t_segments (fst (merge_chunks ys))) = mset (concat (map get_segments xs))"
    by (simp add: merge_chunks_segments)
  have s: "sorted (map seg_start (t_segments (fst (merge_chunks ys))))"
    by (simp add: merge_chunks_segments)
  have st: "filter (\<lambda>g. seg_start g = k) (t_segments (fst (merge_chunks ys))) =
      filter (\<lambda>g. seg_start g = k) (concat (map get_segments (sort_key r_chunk_index ys)))" for k
    unfolding merge_chunks_segments by (rule sort_key_stable)
  from s m st show ?thesis by blast
qed

theorem merged_segments_sorted_stable_witness:
  "mset [result_c, result_a, result_b] = mset [result_a, result_b, result_c] \<and>
   sorted (map seg_start (t_segments (fst (merge_chunks [result_c, result_a, result_b])))) \<and>
   t_segments (fst (merge_chunks [result_c, result_a, result_b])) =
     [\<lparr>seg_start = 0, seg_end = 2, seg_text = ''first''\<rparr>,
      \<lparr>seg_start = 61, seg_end = 63, seg_text = ''third''\<rparr>,
      \<lparr>seg_start = 61, seg_end = 70, seg_text = ''more''\<rparr>]"
proof -
  have h: "mset [result_c, result_a, result_b] = mset [result_a, result_b, result_c]" by simp
  from merged_segments_sorted_stable [OF h]
  have s: "sorted (map seg_start (t_segments (fst (merge_chunks [result_c, result_a, result_b]))))"
    by blast
  have v: "t_segments (fst (merge_chunks [result_c, result_a, result_b])) =
     [\<lparr>seg_start = 0, seg_end = 2, seg_text = ''first''\<rparr>,
      \<lparr>seg_start = 61, seg_end = 63, seg_text = ''third''\<rparr>,
      \<lparr>seg_start = 61, seg_end = 70, seg_text = ''more''\<rparr>]" by code_simp
  from h s v show ?thesis by blast
qed

text \<open>
  Claim C10. After \<open>merge_chunks\<close> the caller's list is the stable sort of its
  former contents by chunk index: ascending, with the same elements, and with chunks of
  equal index in their former relative order.
\<close>

theorem merge_sorts_caller_list:
  "snd (merge_chunks xs) = sort_key r_chunk_index xs \<and>
   sorted (map r_chunk_index (snd (merge_chunks xs))) \<and>
   mset (snd (merge_chunks xs)) = mset xs \<and>
   (\<forall>k. filter (\<lambda>c. r_chunk_index c = k) (snd (merge_chunks xs)) =
        filter (\<lambda>c. r_chunk_index c = k) xs)"
proof -
  have "filter (\<lambda>c. r_chunk_index c = k) (sort_key r_chunk_index xs) =
        filter (\<lambda>c. r_chunk_index c = k) xs" for k
    by (rule sort_key_stable)
  then show ?thesis by (simp add: merge_chunks_snd)
qed

theorem merge_sorts_caller_list_witness:
  "snd (merge_chunks [result_c, result_a, result_b]) = [result_a, result_b, result_c] \<and>
   sorted (map r_chunk_index (snd (merge_chunks [result_c, result_a, result_b])))"
proof -
  from merge_sorts_caller_list [of "[result_c, result_a, result_b]"]
  have a: "snd (merge_chunks [result_c, result_a, result_b]) =
      sort_key r_chunk_index [result_c, result_a, result_b]"
    and b: "sorted (map r_chunk_index (snd (merge_chunks [result_c, result_a, result_b])))"
    by blast+
  have "sort_key r_chunk_index [result_c, result_a, result_b] = [result_a, result_b, result_c]"
    by code_simp
  with a b show ?thesis by simp
qed

section \<open>Chunk transcriber: \<open>transcribe_chunk_worker\<close>\<close>

text \<open>
  The transcription model is outside the program:
  \<open>whisper model path beam_size best_of condition_on_previous_text\<close> is the list of
  segments it yields for the chunk file, with chunk-local timestamps, or an error.
  \<open>files\<close> are the files of the chunk directory; \<open>Path.unlink\<close> raises when
  the file is not there.
\<close>

definition decoding_parameters :: "string \<Rightarrow> nat \<times> nat \<times> bool" where
  "decoding_parameters transcription_mode =
     (if transcription_mode = ''fast'' then (3, 3, False) else (5, 5, True))"

text \<open>The body of \<open>for segment in segments\<close>, on the pair of accumulators.\<close>

definition adjust_segment :: "chunk \<Rightarrow> segment list \<times> string list \<Rightarrow> segment \<Rightarrow> segment list \<times> string list" where
  "adjust_segment chunk_info acc segment =
     (case acc of (segment_list, text_parts) \<Rightarrow>
        (let adjusted_segment =
               \<lparr>seg_start = seg_start segment + c_start chunk_info,
                seg_end = seg_end segment + c_start chunk_info,
                seg_text = strip (seg_text segment)\<rparr>
         in if seg_text adjusted_segment \<noteq> []
            then (segment_list @ [adjusted_segment], text_parts @ [seg_text adjusted_segment])
            else (segment_list, text_parts)))"

definition transcribe_chunk_worker ::
  "(string \<Rightarrow> string \<Rightarrow> nat \<Rightarrow> nat \<Rightarrow> bool \<Rightarrow> error + segment list) \<Rightarrow> string set
     \<Rightarrow> chunk \<times> string \<times> string \<Rightarrow> error + (chunk_result \<times> string set)" where
  "transcribe_chunk_worker whisper files args =
     (case args of (chunk_info, whisper_model, transcription_mode) \<Rightarrow>
      (case decoding_parameters transcription_mode of (beam_size, best_of, condition_on_previous_text) \<Rightarrow>
       (case whisper whisper_model (c_path chunk_info) beam_size best_of condition_on_previous_text of
          Inl e \<Rightarrow> Inl e
        | Inr segments \<Rightarrow>
            (case foldl (adjust_segment chunk_info) ([], []) segments of (segment_list, text_parts) \<Rightarrow>
               if c_path chunk_info \<in> files
               then Inr (\<lparr>r_text = join [CHR 0x0A] text_parts, r_segments = Some segment_list,
                          r_chunk_index = c_index chunk_info\<rparr>,
                         files - {c_path chunk_info})
               else Inl FileNotFoundError))))"

definition rebase :: "rat \<Rightarrow> segment \<Rightarrow> segment" where
  "rebase offset g = \<lparr>seg_start = seg_start g + offset, seg_end = seg_end g + offset,
                       seg_text = strip (seg_text g)\<rparr>"

lemma adjust_segment_loop:
  "foldl (adjust_segment ci) (sl, tp) segs =
     (sl @ map (rebase (c_start ci)) (filter (\<lambda>g. strip (seg_text g) \<noteq> []) segs),
      tp @ map (\<lambda>g. strip (seg_text g)) (filter (\<lambda>g. strip (seg_text g) \<noteq> []) segs))"
  by (induction segs arbitrary: sl tp) (auto simp: adjust_segment_def rebase_def Let_def)

definition sample_whisper :: "string \<Rightarrow> string \<Rightarrow> nat \<Rightarrow> nat \<Rightarrow> bool \<Rightarrow> error + segment list" where
  "sample_whisper whisper_model path beam_size best_of cond =
     Inr [\<lparr>seg_start = 0, seg_end = 2, seg_text = '' hello ''\<rparr>,
          \<lparr>seg_start = 2, seg_end = 3, seg_text = ''  ''\<rparr>,
          \<lparr>seg_start = 3, seg_end = 5, seg_text = ''world''\<rparr>]"

definition sample_chunk :: chunk where
  "sample_chunk = \<lparr>c_path = ''7_chunk_001.wav'', c_start = 31, c_duration = 30, c_index = 1\<rparr>"


text \<open>
  Claim C7. When the model yields \<open>segs\<close> for the chunk and the chunk file is there,
  the worker returns: as segments, the segments of \<open>segs\<close> whose stripped text is not
  empty, in order, each with its start and end increased by the chunk's start offset and with
  its text stripped; as text, the newline-joined texts of those same segments; and the
  chunk's index. The chunk file is removed.
\<close>

theorem worker_rebases_and_drops_empty:
  assumes m: "whisper whisper_model (c_path ci) (fst (decoding_parameters mode))
                (fst (snd (decoding_parameters mode))) (snd (snd (decoding_parameters mode))) = Inr segs"
      and f: "c_path ci \<in> files"
  shows "transcribe_chunk_worker whisper files (ci, whisper_model, mode) =
           Inr (\<lparr>r_text = join [CHR 0x0A]
                            (map (\<lambda>g. strip (seg_text g)) (filter (\<lambda>g. strip (seg_text g) \<noteq> []) segs)),
                  r_segments = Some (map (\<lambda>g. \<lparr>seg_start = seg_start g + c_start ci,
                                               seg_end = seg_end g + c_start ci,
                                               seg_text = strip (seg_text g)\<rparr>)
                                       (filter (\<lambda>g. strip (seg_text g) \<noteq> []) segs)),
                  r_chunk_index = c_index ci\<rparr>,
                files - {c_path ci})"
proof -
  obtain b bo c where d: "decoding_parameters mode = (b, bo, c)"
    by (cases "decoding_parameters mode") auto
  from m d have w: "whisper whisper_model (c_path ci) b bo c = Inr segs" by simp
  have r: "rebase (c_start ci) = (\<lambda>g. \<lparr>seg_start = seg_start g + c_start ci,
      seg_end = seg_end g + c_start ci, seg_text = strip (seg_text g)\<rparr>)"
    by (rule ext) (simp add: rebase_def)
  show ?thesis
    by (simp add: transcribe_chunk_worker_def d w f adjust_segment_loop r)
qed

theorem worker_rebases_and_drops_empty_witness:
  "sample_whisper ''small'' (c_path sample_chunk) (fst (decoding_parameters ''fast''))
      (fst (snd (decoding_parameters ''fast''))) (snd (snd (decoding_parameters ''fast''))) =
     Inr [\<lparr>seg_start = 0, seg_end = 2, seg_text = '' hello ''\<rparr>,
          \<lparr>seg_start = 2, seg_end = 3, seg_text = ''  ''\<rparr>,
          \<lparr>seg_start = 3, seg_end = 5, seg_text = ''world''\<rparr>] \<and>
   c_path sample_chunk \<in> {''7_chunk_001.wav'', ''7_full.wav''} \<and>
   transcribe_chunk_worker sample_whisper {''7_chunk_001.wav'', ''7_full.wav''} (sample_chunk, ''small'', ''fast'') =
     Inr (\<lparr>r_text = ''hello'' @ [CHR 0x0A] @ ''world'',
            r_segments = Some [\<lparr>seg_start = 31, seg_end = 33, seg_text = ''hello''\<rparr>,
                               \<lparr>seg_start = 34, seg_end = 36, seg_text = ''world''\<rparr>],
            r_chunk_index = 1\<rparr>, {''7_full.wav''})"
proof -
  have h1: "sample_whisper ''small'' (c_path sample_chunk) (fst (decoding_parameters ''fast''))
      (fst (snd (decoding_parameters ''fast''))) (snd (snd (decoding_parameters ''fast''))) =
     Inr [\<lparr>seg_start = 0, seg_end = 2, seg_text = '' hello ''\<rparr>,
          \<lparr>seg_start = 2, seg_end = 3, seg_text = ''  ''\<rparr>,
          \<lparr>seg_start = 3, seg_end = 5, seg_text = ''world''\<rparr>]"
    by (simp add: sample_whisper_def)
  have h2: "c_path sample_chunk \<in> {''7_chunk_001.wav'', ''7_full.wav''}"
    by (simp add: sample_chunk_def)
  have v: "transcribe_chunk_worker sample_whisper {''7_chunk_001.wav'', ''7_full.wav''} (sample_chunk, ''small'', ''fast'') =
     Inr (\<lparr>r_text = ''hello'' @ [CHR 0x0A] @ ''world'',
            r_segments = Some [\<lparr>seg_start = 31, seg_end = 33, seg_text = ''hello''\<rparr>,
                               \<lparr>seg_start = 34, seg_end = 36, seg_text = ''world''\<rparr>],
            r_chunk_index = 1\<rparr>, {''7_full.wav''})"
    unfolding worker_rebases_and_drops_empty [where whisper = sample_whisper and ci = sample_chunk
        and mode = "''fast''" and whisper_model = "''small''"
        and files = "{''7_chunk_001.wav'', ''7_full.wav''}", OF h1 h2]
    by code_simp
  from h1 h2 v show ?thesis by blast
qed

section \<open>Status store\<close>

text \<open>
  The table \<open>hearings\<close>: a row per hearing id, a value per column. An
  \<open>UPDATE ... WHERE id = ...\<close> changes the named columns of the row with that id and
  nothing when there is no such row. \<open>DNow\<close> is the value of \<open>NOW()\<close>. The
  store is taken to be reachable: a failing connection is not modelled.
\<close>

datatype db_value = DText string | DInt int | DNow

type_synonym row = "string \<rightharpoonup> db_value"
type_synonym store = "string \<rightharpoonup> row"

definition sql_update :: "store \<Rightarrow> string \<Rightarrow> (string \<times> db_value) list \<Rightarrow> store" where
  "sql_update db hearing_id assignments =
     (case db hearing_id of
        None \<Rightarrow> db
      | Some r \<Rightarrow> db(hearing_id \<mapsto> foldl (\<lambda>r' (col, v). r'(col \<mapsto> v)) r assignments))"

definition column :: "store \<Rightarrow> string \<Rightarrow> string \<Rightarrow> db_value option" where
  "column db hearing_id col = (case db hearing_id of None \<Rightarrow> None | Some r \<Rightarrow> r col)"

text \<open>
  \<open>_update_status_sync\<close> and \<open>_update_download_complete_sync\<close>. The parameter
  \<open>error_msg\<close> is accepted and, as in the source, used by no branch.
\<close>

definition update_status_sync :: "store \<Rightarrow> string \<Rightarrow> string \<Rightarrow> string \<Rightarrow> string option \<Rightarrow> store" where
  "update_status_sync db hearing_id status_field status_value error_msg =
     (if status_field = ''download_status'' \<and> status_value = ''downloading'' then
        sql_update db hearing_id [(status_field, DText status_value), (''download_started_at'', DNow)]
      else if status_field = ''transcription_status'' \<and> status_value = ''processing'' then
        sql_update db hearing_id [(status_field, DText status_value), (''transcription_started_at'', DNow)]
      else sql_update db hearing_id [(status_field, DText status_value)])"

definition update_download_complete_sync :: "store \<Rightarrow> string \<Rightarrow> string \<Rightarrow> nat \<Rightarrow> store" where
  "update_download_complete_sync db hearing_id filename file_size =
     sql_update db hearing_id
       [(''download_status'', DText ''completed''), (''video_file_path'', DText filename),
        (''video_size_bytes'', DInt (int file_size)), (''download_completed_at'', DNow)]"

section \<open>Download with retries: \<open>download_video\<close>\<close>

text \<open>
  The network is outside the program: \<open>network retry_count\<close> is what the transfer
  attempted with that retry count does, either \<open>Downloaded size\<close> or
  \<open>Failed message left\<close>, an exception whose text is \<open>message\<close> and which
  leaves \<open>left\<close> at the video path (nothing, or a file of that many bytes).
  \<open>jitter retry_count\<close> is the value drawn by \<open>random.uniform(0, 1)\<close>.
  The state holds the store, the size of the file at the video path if there is one, the
  waits slept so far, the attempts made so far with their retry counts (the source logs
  both the start and the outcome of each), and the success counters.
\<close>

datatype attempt = Downloaded nat | Failed string "nat option"

record dstate =
  ds_db :: store
  ds_video :: "nat option"
  ds_slept :: "rat list"
  ds_log :: "(nat \<times> attempt) list"
  ds_successful :: nat
  ds_total_bytes :: nat

definition max_retries :: nat where
  "max_retries = 3"

definition video_file :: "string \<Rightarrow> string" where
  "video_file video_id = video_id @ ''.mp4''"

definition has_video :: "dstate \<Rightarrow> bool" where
  "has_video st = (case ds_video st of None \<Rightarrow> False | Some st_size \<Rightarrow> 0 < st_size)"

definition wait_time :: "(nat \<Rightarrow> rat) \<Rightarrow> nat \<Rightarrow> rat" where
  "wait_time jitter retry_count = 2 ^ retry_count + jitter retry_count"

function download_video ::
  "(nat \<Rightarrow> attempt) \<Rightarrow> (nat \<Rightarrow> rat) \<Rightarrow> string \<Rightarrow> nat \<Rightarrow> dstate \<Rightarrow> dstate \<times> string option" where
  "download_video network jitter video_id retry_count st =
     (if has_video st then (st, Some (video_file video_id))
      else
        (let st1 = st\<lparr>ds_db := update_status_sync (ds_db st) video_id ''download_status'' ''downloading'' None\<rparr>
         in case network retry_count of
              Downloaded file_size \<Rightarrow>
                (st1\<lparr>ds_video := Some file_size,
                      ds_db := update_download_complete_sync (ds_db st1) video_id (video_file video_id) file_size,
                      ds_log := ds_log st1 @ [(retry_count, Downloaded file_size)],
                      ds_successful := Suc (ds_successful st1),
                      ds_total_bytes := ds_total_bytes st1 + file_size\<rparr>,
                 Some (video_file video_id))
            | Failed msg left \<Rightarrow>
                (let st2 = st1\<lparr>ds_video := left, ds_log := ds_log st1 @ [(retry_count, Failed msg left)]\<rparr>
                 in if retry_count < max_retries then
                      download_video network jitter video_id (Suc retry_count)
                        (st2\<lparr>ds_slept := ds_slept st2 @ [wait_time jitter retry_count]\<rparr>)
                    else
                      (st2\<lparr>ds_db := update_status_sync (ds_db st2) video_id ''download_status'' ''failed'' (Some msg)\<rparr>,
                       None))))"
  by pat_completeness auto
termination
  by (relation "measure (\<lambda>(network, jitter, video_id, retry_count, st). max_retries - retry_count)") auto

declare download_video.simps [simp del]

text \<open>Sample networks, jitter and job.\<close>

definition always_fails :: "nat \<Rightarrow> attempt" where
  "always_fails retry_count = Failed ''Connection reset'' None"

definition fourth_succeeds :: "nat \<Rightarrow> attempt" where
  "fourth_succeeds retry_count = (if retry_count < 3 then Failed ''Connection reset'' None else Downloaded 1024)"

definition no_jitter :: "nat \<Rightarrow> rat" where
  "no_jitter retry_count = 0"

definition sample_store :: store where
  "sample_store = [''h1'' \<mapsto> [''download_status'' \<mapsto> DText ''pending'', ''retry_count'' \<mapsto> DInt 0]]"

definition sample_dstate :: dstate where
  "sample_dstate = \<lparr>ds_db = sample_store, ds_video = None, ds_slept = [], ds_log = [],
                     ds_successful = 0, ds_total_bytes = 0\<rparr>"

text \<open>What a run of \<open>download_video\<close> adds to the log, the waits and the store.\<close>

definition succeeded :: "attempt \<Rightarrow> bool" where
  "succeeded a = (case a of Downloaded file_size \<Rightarrow> True | Failed msg left \<Rightarrow> False)"

definition retried :: "nat \<times> attempt \<Rightarrow> bool" where
  "retried entry \<longleftrightarrow> \<not> succeeded (snd entry) \<and> fst entry < max_retries"

definition download_state :: "string \<Rightarrow> dstate \<Rightarrow> dstate" where
  "download_state video_id st =
     st\<lparr>ds_db := update_status_sync (ds_db st) video_id ''download_status'' ''downloading'' None\<rparr>"

lemma dv_already:
  "has_video st \<Longrightarrow> download_video net jit vid n st = (st, Some (video_file vid))"
  by (simp add: download_video.simps)

lemma dv_success:
  assumes "\<not> has_video st" "net n = Downloaded sz"
  shows "download_video net jit vid n st =
     ((download_state vid st)\<lparr>ds_video := Some sz,
         ds_db := update_download_complete_sync (ds_db (download_state vid st)) vid (video_file vid) sz,
         ds_log := ds_log st @ [(n, Downloaded sz)],
         ds_successful := Suc (ds_successful st),
         ds_total_bytes := ds_total_bytes st + sz\<rparr>, Some (video_file vid))"
  using assms by (simp add: download_video.simps download_state_def Let_def)

lemma dv_retry:
  assumes "\<not> has_video st" "net n = Failed msg left" "n < max_retries"
  shows "download_video net jit vid n st =
     download_video net jit vid (Suc n)
       ((download_state vid st)\<lparr>ds_video := left, ds_log := ds_log st @ [(n, Failed msg left)],
          ds_slept := ds_slept st @ [wait_time jit n]\<rparr>)"
  using assms by (simp add: download_video.simps download_state_def Let_def)

lemma dv_give_up:
  assumes "\<not> has_video st" "net n = Failed msg left" "\<not> n < max_retries"
  shows "download_video net jit vid n st =
     ((download_state vid st)\<lparr>ds_video := left, ds_log := ds_log st @ [(n, Failed msg left)],
         ds_db := update_status_sync (ds_db (download_state vid st)) vid ''download_status'' ''failed'' (Some msg)\<rparr>,
      None)"
  using assms by (simp add: download_video.simps download_state_def Let_def)

lemma dom_sql_update [simp]: "dom (sql_update db vid as) = dom db"
  by (auto simp: sql_update_def split: option.splits)

lemma dom_update_status_sync [simp]: "dom (update_status_sync db vid f v e) = dom db"
  by (simp add: update_status_sync_def)

lemma column_retry_count_status [simp]:
  "column (update_status_sync db vid ''download_status'' v e) vid ''retry_count'' = column db vid ''retry_count''"
  by (simp add: column_def update_status_sync_def sql_update_def split: option.splits)

lemma column_retry_count_complete [simp]:
  "column (update_download_complete_sync db vid f sz) vid ''retry_count'' = column db vid ''retry_count''"
  by (simp add: column_def update_download_complete_sync_def sql_update_def split: option.splits)

lemma column_status_complete:
  "vid \<in> dom db \<Longrightarrow>
   column (update_download_complete_sync db vid f sz) vid ''download_status'' = Some (DText ''completed'')"
  by (auto simp: column_def update_download_complete_sync_def sql_update_def split: option.splits)

lemma column_status_failed:
  "vid \<in> dom db \<Longrightarrow>
   column (update_status_sync db vid ''download_status'' ''failed'' e) vid ''download_status'' = Some (DText ''failed'')"
  by (auto simp: column_def update_status_sync_def sql_update_def split: option.splits)

definition run_summary ::
  "(nat \<Rightarrow> rat) \<Rightarrow> string \<Rightarrow> nat \<Rightarrow> dstate \<Rightarrow> dstate \<times> string option \<Rightarrow> (nat \<times> attempt) list \<Rightarrow> bool" where
  "run_summary jit vid n st out acts \<longleftrightarrow>
     ds_log (fst out) = ds_log st @ acts \<and> map fst acts = [n..<n + length acts] \<and>
     n + length acts \<le> Suc max_retries \<and> (\<forall>entry \<in> set (butlast acts). retried entry) \<and>
     ds_slept (fst out) = ds_slept st @ map (\<lambda>entry. wait_time jit (fst entry)) (filter retried acts) \<and>
     column (ds_db (fst out)) vid ''retry_count'' = column (ds_db st) vid ''retry_count'' \<and>
     (acts \<noteq> [] \<and> succeeded (snd (last acts)) \<longrightarrow>
        column (ds_db (fst out)) vid ''download_status'' = Some (DText ''completed'') \<and>
        snd out = Some (video_file vid)) \<and>
     (acts \<noteq> [] \<and> \<not> succeeded (snd (last acts)) \<and> fst (last acts) = max_retries \<longrightarrow>
        column (ds_db (fst out)) vid ''download_status'' = Some (DText ''failed'') \<and> snd out = None)"

lemma summary_already:
  "n \<le> max_retries \<Longrightarrow> run_summary jit vid n st (st, Some (video_file vid)) []"
  by (simp add: run_summary_def)

lemma summary_success:
  assumes "vid \<in> dom (ds_db st)" "n \<le> max_retries" "\<not> has_video st" "net n = Downloaded sz"
  shows "run_summary jit vid n st (download_video net jit vid n st) [(n, Downloaded sz)]"
  unfolding dv_success [where net = net and n = n, OF assms(3,4)]
  using assms(1,2)
  by (simp add: run_summary_def download_state_def succeeded_def retried_def column_status_complete)

lemma summary_give_up:
  assumes "vid \<in> dom (ds_db st)" "n \<le> max_retries" "\<not> has_video st" "net n = Failed msg left"
    "\<not> n < max_retries"
  shows "run_summary jit vid n st (download_video net jit vid n st) [(n, Failed msg left)]"
  unfolding dv_give_up [where net = net and n = n, OF assms(3,4,5)]
  using assms(1,2,5)
  by (simp add: run_summary_def download_state_def succeeded_def retried_def column_status_failed)

lemma summary_retry:
  assumes lt: "n < max_retries"
    and st3: "st3 = (download_state vid st)\<lparr>ds_video := left, ds_log := ds_log st @ [(n, Failed msg left)],
          ds_slept := ds_slept st @ [wait_time jit n]\<rparr>"
    and rest: "run_summary jit vid (Suc n) st3 out acts"
  shows "run_summary jit vid n st out ((n, Failed msg left) # acts)"
proof -
  have r: "retried (n, Failed msg left)" using lt by (simp add: retried_def succeeded_def)
  have m: "map fst acts = [Suc n..<Suc n + length acts]" using rest by (simp add: run_summary_def)
  have "[n..<n + length ((n, Failed msg left) # acts)] = n # [Suc n..<Suc n + length acts]"
    by (simp add: upt_conv_Cons del: upt_Suc)
  then have idx: "map fst ((n, Failed msg left) # acts) = [n..<n + length ((n, Failed msg left) # acts)]"
    using m by (simp del: upt_Suc)
  have last_eq: "acts \<noteq> [] \<Longrightarrow> last ((n, Failed msg left) # acts) = last acts" by simp
  show ?thesis
  proof (cases "acts = []")
    case True
    with rest lt r show ?thesis
      by (simp add: run_summary_def st3 download_state_def succeeded_def)
  next
    case False
    with rest lt r idx show ?thesis
      by (simp add: run_summary_def st3 download_state_def del: upt_Suc)
  qed
qed

lemma download_video_summary:
  assumes "vid \<in> dom (ds_db st)" "n \<le> max_retries"
  shows "\<exists>acts. run_summary jit vid n st (download_video net jit vid n st) acts"
  using assms
proof (induction "max_retries - n" arbitrary: n st)
  case 0
  then have top: "\<not> n < max_retries" by simp
  show ?case
  proof (cases "has_video st")
    case True
    then show ?thesis using "0.prems" by (auto simp: dv_already intro: summary_already)
  next
    case False
    show ?thesis
    proof (cases "net n")
      case (Downloaded sz)
      with False "0.prems" show ?thesis by (blast intro: summary_success)
    next
      case (Failed msg left)
      with False "0.prems" top show ?thesis by (blast intro: summary_give_up)
    qed
  qed
next
  case (Suc k)
  then have lt: "n < max_retries" by simp
  show ?case
  proof (cases "has_video st")
    case True
    then show ?thesis using Suc.prems by (auto simp: dv_already intro: summary_already)
  next
    case False
    show ?thesis
    proof (cases "net n")
      case (Downloaded sz)
      with False Suc.prems show ?thesis by (blast intro: summary_success)
    next
      case (Failed msg left)
      define st3 where "st3 = (download_state vid st)\<lparr>ds_video := left,
          ds_log := ds_log st @ [(n, Failed msg left)], ds_slept := ds_slept st @ [wait_time jit n]\<rparr>"
      have eq: "download_video net jit vid n st = download_video net jit vid (Suc n) st3"
        unfolding st3_def using False Failed lt by (rule dv_retry)
      have k: "k = max_retries - Suc n" using Suc.hyps(2) by simp
      have d: "vid \<in> dom (ds_db st3)" using Suc.prems(1) by (simp add: st3_def download_state_def)
      have le: "Suc n \<le> max_retries" using lt by simp
      from Suc.hyps(1) [OF k d le] obtain acts
        where "run_summary jit vid (Suc n) st3 (download_video net jit vid (Suc n) st3) acts" by blast
      with lt st3_def have "run_summary jit vid n st (download_video net jit vid (Suc n) st3)
          ((n, Failed msg left) # acts)" by (rule summary_retry)
      then show ?thesis unfolding eq by blast
    qed
  qed
qed

lemma filter_retried_prefix:
  assumes "\<forall>entry \<in> set (butlast acts). retried entry"
  shows "filter retried acts = (if acts \<noteq> [] \<and> retried (last acts) then acts else butlast acts)"
proof (cases "acts = []")
  case True
  then show ?thesis by simp
next
  case False
  then have split: "acts = butlast acts @ [last acts]" by simp
  have "filter retried (butlast acts @ [last acts]) =
      (if retried (last acts) then butlast acts @ [last acts] else butlast acts)"
    using assms by (simp add: filter_id_conv)
  with False split show ?thesis by simp
qed

lemma slept_nth:
  assumes idx: "map fst acts = [0..<length acts]"
    and pre: "\<forall>entry \<in> set (butlast acts). retried entry"
    and i: "i < length (filter retried acts)"
  shows "map (\<lambda>entry. wait_time jit (fst entry)) (filter retried acts) ! i = wait_time jit i"
proof -
  have "filter retried acts = take (length (filter retried acts)) acts"
    using filter_retried_prefix [OF pre] by (auto simp: butlast_conv_take)
  then have "filter retried acts ! i = acts ! i" using i by (metis nth_take)
  moreover have il: "i < length acts" by (rule less_le_trans [OF i length_filter_le])
  moreover have "fst (acts ! i) = map fst acts ! i" using il by simp
  then have "fst (acts ! i) = i" using il idx by simp
  ultimately show ?thesis using i by simp
qed


text \<open>
  Claim C5, as amended. For a job that has a row in the store, started with
  \<open>retry_count = 0\<close>: at most four attempts are made, numbered 0 to 3; the
  \<open>i\<close>-th wait is \<open>2 ^ i + jitter i\<close>, so the wait before retry attempt
  \<open>n\<close> is \<open>2 ^ (n - 1)\<close> plus the jitter; three failures and then a success
  leave the download status \<open>completed\<close>; four failures leave it \<open>failed\<close>,
  the last attempt being the one with the retry count at its ceiling 3. The store's column
  \<open>retry_count\<close> is never written: it keeps the value it had.
\<close>

theorem download_retry_outcome:
  assumes job: "video_id \<in> dom (ds_db st)" and fresh: "ds_log st = []" "ds_slept st = []"
  shows "length (ds_log (fst (download_video network jitter video_id 0 st))) \<le> Suc max_retries \<and>
    map fst (ds_log (fst (download_video network jitter video_id 0 st))) =
      [0..<length (ds_log (fst (download_video network jitter video_id 0 st)))] \<and>
    (\<forall>i < length (ds_slept (fst (download_video network jitter video_id 0 st))).
        ds_slept (fst (download_video network jitter video_id 0 st)) ! i = 2 ^ i + jitter i) \<and>
    column (ds_db (fst (download_video network jitter video_id 0 st))) video_id ''retry_count'' =
      column (ds_db st) video_id ''retry_count'' \<and>
    (map (succeeded \<circ> snd) (ds_log (fst (download_video network jitter video_id 0 st))) =
        [False, False, False, True] \<longrightarrow>
       column (ds_db (fst (download_video network jitter video_id 0 st))) video_id ''download_status'' =
         Some (DText ''completed'') \<and>
       snd (download_video network jitter video_id 0 st) = Some (video_file video_id) \<and>
       ds_slept (fst (download_video network jitter video_id 0 st)) =
         [2 ^ 0 + jitter 0, 2 ^ 1 + jitter 1, 2 ^ 2 + jitter 2]) \<and>
    (map (succeeded \<circ> snd) (ds_log (fst (download_video network jitter video_id 0 st))) =
        [False, False, False, False] \<longrightarrow>
       column (ds_db (fst (download_video network jitter video_id 0 st))) video_id ''download_status'' =
         Some (DText ''failed'') \<and>
       snd (download_video network jitter video_id 0 st) = None \<and>
       fst (last (ds_log (fst (download_video network jitter video_id 0 st)))) = max_retries \<and>
       ds_slept (fst (download_video network jitter video_id 0 st)) =
         [2 ^ 0 + jitter 0, 2 ^ 1 + jitter 1, 2 ^ 2 + jitter 2])"
proof -
  define out where "out = download_video network jitter video_id 0 st"
  from download_video_summary [OF job, of 0 jitter network]
  obtain acts where s: "run_summary jitter video_id 0 st out acts" unfolding out_def by auto
  from s fresh have log: "ds_log (fst out) = acts"
    and idx: "map fst acts = [0..<length acts]"
    and len: "length acts \<le> Suc max_retries"
    and pre: "\<forall>entry \<in> set (butlast acts). retried entry"
    and slept: "ds_slept (fst out) = map (\<lambda>entry. wait_time jitter (fst entry)) (filter retried acts)"
    and rc: "column (ds_db (fst out)) video_id ''retry_count'' = column (ds_db st) video_id ''retry_count''"
    and ok: "acts \<noteq> [] \<and> succeeded (snd (last acts)) \<longrightarrow>
        column (ds_db (fst out)) video_id ''download_status'' = Some (DText ''completed'') \<and>
        snd out = Some (video_file video_id)"
    and bad: "acts \<noteq> [] \<and> \<not> succeeded (snd (last acts)) \<and> fst (last acts) = max_retries \<longrightarrow>
        column (ds_db (fst out)) video_id ''download_status'' = Some (DText ''failed'') \<and> snd out = None"
    by (simp_all add: run_summary_def)
  have waits: "\<forall>i < length (ds_slept (fst out)). ds_slept (fst out) ! i = 2 ^ i + jitter i"
    using slept_nth [OF idx pre, of _ jitter] by (simp add: slept wait_time_def)
  have four: "fst (last acts) = max_retries \<and>
      ds_slept (fst out) = [2 ^ 0 + jitter 0, 2 ^ 1 + jitter 1, 2 ^ 2 + jitter 2]"
    if o: "map (succeeded \<circ> snd) acts = [False, False, False, x]" for x
  proof -
    from o obtain e0 e1 e2 e3 where acts: "acts = [e0, e1, e2, e3]"
      by (auto simp: map_eq_Cons_conv)
    from idx acts have f: "fst e0 = 0" "fst e1 = 1" "fst e2 = 2" "fst e3 = 3"
      by (simp_all add: upt_rec)
    from o acts have n: "\<not> succeeded (snd e0)" "\<not> succeeded (snd e1)" "\<not> succeeded (snd e2)"
      by simp_all
    have "filter retried acts = [e0, e1, e2]"
      using f n by (simp add: acts retried_def max_retries_def)
    with f show ?thesis by (simp add: slept acts wait_time_def max_retries_def)
  qed
  have a: "column (ds_db (fst out)) video_id ''download_status'' = Some (DText ''completed'') \<and>
       snd out = Some (video_file video_id) \<and>
       ds_slept (fst out) = [2 ^ 0 + jitter 0, 2 ^ 1 + jitter 1, 2 ^ 2 + jitter 2]"
    if o: "map (succeeded \<circ> snd) (ds_log (fst out)) = [False, False, False, True]"
  proof -
    from o have o': "map (succeeded \<circ> snd) acts = [False, False, False, True]" by (simp add: log)
    then have "acts \<noteq> [] \<and> succeeded (snd (last acts))" by (auto simp: map_eq_Cons_conv)
    with ok four [OF o'] show ?thesis by blast
  qed
  have b: "column (ds_db (fst out)) video_id ''download_status'' = Some (DText ''failed'') \<and>
       snd out = None \<and> fst (last (ds_log (fst out))) = max_retries \<and>
       ds_slept (fst out) = [2 ^ 0 + jitter 0, 2 ^ 1 + jitter 1, 2 ^ 2 + jitter 2]"
    if o: "map (succeeded \<circ> snd) (ds_log (fst out)) = [False, False, False, False]"
  proof -
    from o have o': "map (succeeded \<circ> snd) acts = [False, False, False, False]" by (simp add: log)
    then have "acts \<noteq> [] \<and> \<not> succeeded (snd (last acts))" by (auto simp: map_eq_Cons_conv)
    with bad four [OF o'] show ?thesis by (simp add: log)
  qed
  from len idx waits rc a b show ?thesis unfolding out_def [symmetric] log by blast
qed

definition half_jitter :: "nat \<Rightarrow> rat" where
  "half_jitter retry_count = 1 / 2"

theorem download_retry_outcome_witness:
  "''h1'' \<in> dom (ds_db sample_dstate) \<and> ds_log sample_dstate = [] \<and> ds_slept sample_dstate = [] \<and>
   map (succeeded \<circ> snd) (ds_log (fst (download_video fourth_succeeds half_jitter ''h1'' 0 sample_dstate))) =
     [False, False, False, True] \<and>
   column (ds_db (fst (download_video fourth_succeeds half_jitter ''h1'' 0 sample_dstate))) ''h1'' ''download_status'' =
     Some (DText ''completed'') \<and>
   ds_slept (fst (download_video fourth_succeeds half_jitter ''h1'' 0 sample_dstate)) = [3 / 2, 5 / 2, 9 / 2] \<and>
   map (succeeded \<circ> snd) (ds_log (fst (download_video always_fails half_jitter ''h1'' 0 sample_dstate))) =
     [False, False, False, False] \<and>
   column (ds_db (fst (download_video always_fails half_jitter ''h1'' 0 sample_dstate))) ''h1'' ''download_status'' =
     Some (DText ''failed'') \<and>
   snd (download_video always_fails half_jitter ''h1'' 0 sample_dstate) = None \<and>
   fst (last (ds_log (fst (download_video always_fails half_jitter ''h1'' 0 sample_dstate)))) = max_retries"
proof -
  have job: "''h1'' \<in> dom (ds_db sample_dstate)" by (simp add: sample_dstate_def sample_store_def)
  have fresh: "ds_log sample_dstate = []" "ds_slept sample_dstate = []"
    by (simp_all add: sample_dstate_def)
  have o1: "map (succeeded \<circ> snd) (ds_log (fst (download_video fourth_succeeds half_jitter ''h1'' 0 sample_dstate))) =
     [False, False, False, True]" by code_simp
  have o2: "map (succeeded \<circ> snd) (ds_log (fst (download_video always_fails half_jitter ''h1'' 0 sample_dstate))) =
     [False, False, False, False]" by code_simp
  note a = download_retry_outcome [OF job fresh, of fourth_succeeds half_jitter]
  note b = download_retry_outcome [OF job fresh, of always_fails half_jitter]
  from a o1 have a1: "column (ds_db (fst (download_video fourth_succeeds half_jitter ''h1'' 0 sample_dstate))) ''h1'' ''download_status'' =
     Some (DText ''completed'')" by blast
  from a o1 have "ds_slept (fst (download_video fourth_succeeds half_jitter ''h1'' 0 sample_dstate)) =
      [2 ^ 0 + half_jitter 0, 2 ^ 1 + half_jitter 1, 2 ^ 2 + half_jitter 2]" by blast
  then have a2: "ds_slept (fst (download_video fourth_succeeds half_jitter ''h1'' 0 sample_dstate)) = [3 / 2, 5 / 2, 9 / 2]"
    by (simp add: half_jitter_def)
  from b o2 have b1: "column (ds_db (fst (download_video always_fails half_jitter ''h1'' 0 sample_dstate))) ''h1'' ''download_status'' =
     Some (DText ''failed'')"
    and b2: "snd (download_video always_fails half_jitter ''h1'' 0 sample_dstate) = None"
    and b3: "fst (last (ds_log (fst (download_video always_fails half_jitter ''h1'' 0 sample_dstate)))) = max_retries"
    by blast+
  from job fresh o1 a1 a2 o2 b1 b2 b3 show ?thesis by blast
qed

text \<open>
  The claim as first stated has the job recorded with \<open>retry_count\<close> at 3. After
  four failed attempts the stored row is \<open>failed\<close> with its \<open>retry_count\<close>
  still 0.
\<close>

theorem store_retry_count_counterexample:
  "map (succeeded \<circ> snd) (ds_log (fst (download_video always_fails no_jitter ''h1'' 0 sample_dstate))) =
     [False, False, False, False] \<and>
   column (ds_db (fst (download_video always_fails no_jitter ''h1'' 0 sample_dstate))) ''h1'' ''download_status'' =
     Some (DText ''failed'') \<and>
   column (ds_db (fst (download_video always_fails no_jitter ''h1'' 0 sample_dstate))) ''h1'' ''retry_count'' =
     Some (DInt 0) \<and>
   column (ds_db (fst (download_video always_fails no_jitter ''h1'' 0 sample_dstate))) ''h1'' ''retry_count'' \<noteq>
     Some (DInt 3)"
  by code_simp

section \<open>Transcription failure: the exception handler of \<open>transcribe_video\<close>\<close>

text \<open>
  The model is the \<open>try\<close> statement of \<open>transcribe_video\<close>. Its body
  (status update, audio extraction, planning, chunk workers, merge, persisting) is a
  parameter: it either completes or raises an exception with a message, in the state reached
  by then. The state holds the store, the names of the files in the chunk directory and the
  failure counter. \<open>is_chunk_file\<close> is the glob pattern
  \<open>{hearing_id}_chunk_*.wav\<close>, for a hearing id without glob metacharacters.
\<close>

record tstate =
  ts_db :: store
  ts_files :: "string list"
  ts_failed :: nat

datatype body_result = Completed tstate | Raised string tstate

definition audio_file :: "string \<Rightarrow> string" where
  "audio_file hearing_id = hearing_id @ ''_full.wav''"

definition is_chunk_file :: "string \<Rightarrow> string \<Rightarrow> bool" where
  "is_chunk_file hearing_id name \<longleftrightarrow>
     length (hearing_id @ ''_chunk_'') + length ''.wav'' \<le> length name \<and>
     take (length (hearing_id @ ''_chunk_'')) name = hearing_id @ ''_chunk_'' \<and>
     drop (length name - length ''.wav'') name = ''.wav''"

definition unlink_if_exists :: "string \<Rightarrow> string list \<Rightarrow> string list" where
  "unlink_if_exists name files = (if name \<in> set files then removeAll name files else files)"

definition transcribe_video :: "(tstate \<Rightarrow> body_result) \<Rightarrow> string \<Rightarrow> tstate \<Rightarrow> tstate" where
  "transcribe_video body hearing_id st =
     (case body st of
        Completed st' \<Rightarrow> st'
      | Raised msg st' \<Rightarrow>
          (let st1 = st'\<lparr>ts_db := update_status_sync (ts_db st') hearing_id
                                     ''transcription_status'' ''failed'' (Some msg),
                         ts_failed := Suc (ts_failed st')\<rparr>;
               st2 = st1\<lparr>ts_files := unlink_if_exists (audio_file hearing_id) (ts_files st1)\<rparr>
           in st2\<lparr>ts_files := fold unlink_if_exists
                                  (filter (is_chunk_file hearing_id) (ts_files st2)) (ts_files st2)\<rparr>))"

lemma unlink_if_exists_removeAll [simp]: "unlink_if_exists name files = removeAll name files"
  by (simp add: unlink_if_exists_def)

lemma fold_removeAll: "set (fold removeAll xs files) = set files - set xs"
  by (induction xs arbitrary: files) auto

text \<open>The part of claim C6 that holds: after a failure no chunk file of the job is left.\<close>

lemma no_chunk_files_after_failure:
  assumes "body st = Raised msg st'"
  shows "\<forall>name \<in> set (ts_files (transcribe_video body hearing_id st)). \<not> is_chunk_file hearing_id name"
proof -
  have u: "unlink_if_exists = removeAll" by (intro ext) simp
  show ?thesis using assms by (auto simp: transcribe_video_def Let_def u fold_removeAll)
qed

lemma chunk_file_is_chunk_file: "is_chunk_file hearing_id (chunk_file hearing_id n)"
proof -
  let ?front = "hearing_id @ ''_chunk_'' @ fmt03d n"
  have name: "chunk_file hearing_id n = ?front @ ''.wav''" by (simp add: chunk_file_def)
  have "length (?front @ ''.wav'') - length ''.wav'' = length ?front" by simp
  then have "drop (length (?front @ ''.wav'') - length ''.wav'') (?front @ ''.wav'') = ''.wav''"
    by (simp only: drop_append) simp
  moreover have "take (length (hearing_id @ ''_chunk_'')) (?front @ ''.wav'') = hearing_id @ ''_chunk_''"
    by simp
  moreover have "length (hearing_id @ ''_chunk_'') + length ''.wav'' \<le> length (?front @ ''.wav'')"
    by simp
  ultimately show ?thesis unfolding is_chunk_file_def name by blast
qed

lemma error_message_ignored:
  "update_status_sync db hearing_id status_field status_value (Some msg) =
   update_status_sync db hearing_id status_field status_value None"
  by (simp add: update_status_sync_def)

definition sample_tstate :: tstate where
  "sample_tstate =
     \<lparr>ts_db = [''h1'' \<mapsto> [''transcription_status'' \<mapsto> DText ''processing'']],
      ts_files = [''h1_full.wav'', ''h1_chunk_000.wav'', ''h1_chunk_001.wav'', ''h2_chunk_000.wav''],
      ts_failed = 0\<rparr>"

definition tool_failure :: "tstate \<Rightarrow> body_result" where
  "tool_failure st = Raised ''Command ffmpeg returned non-zero exit status 1.'' st"

definition other_failure :: "tstate \<Rightarrow> body_result" where
  "other_failure st = Raised ''No space left on device'' st"

text \<open>
  Claim C6 at a failing input. A tool failure during audio extraction marks the
  transcription \<open>failed\<close> and removes the job's audio and chunk files, but the
  stored row holds the status only: the error message is stored nowhere, and a run that
  fails with another message ends in the very same state.
\<close>

theorem failed_transcription_stores_no_message:
  "column (ts_db (transcribe_video tool_failure ''h1'' sample_tstate)) ''h1'' ''transcription_status'' =
     Some (DText ''failed'') \<and>
   ts_files (transcribe_video tool_failure ''h1'' sample_tstate) = [''h2_chunk_000.wav''] \<and>
   ts_db (transcribe_video tool_failure ''h1'' sample_tstate) ''h1'' =
     Some [''transcription_status'' \<mapsto> DText ''failed''] \<and>
   transcribe_video tool_failure ''h1'' sample_tstate = transcribe_video other_failure ''h1'' sample_tstate"
proof -
  have a: "column (ts_db (transcribe_video tool_failure ''h1'' sample_tstate)) ''h1'' ''transcription_status'' =
     Some (DText ''failed'')" by code_simp
  have b: "ts_files (transcribe_video tool_failure ''h1'' sample_tstate) = [''h2_chunk_000.wav'']"
    by code_simp
  have c: "ts_db (transcribe_video tool_failure ''h1'' sample_tstate) ''h1'' =
     Some [''transcription_status'' \<mapsto> DText ''failed'']"
    by (simp add: transcribe_video_def tool_failure_def sample_tstate_def update_status_sync_def
        sql_update_def Let_def)
  have d: "transcribe_video tool_failure ''h1'' sample_tstate = transcribe_video other_failure ''h1'' sample_tstate"
    by (simp add: transcribe_video_def tool_failure_def other_failure_def error_message_ignored)
  from a b c d show ?thesis by blast
qed

end
